theory Spec2Isabelle
  imports Main "HOL-Library.Word"
begin

unbundle bit_operations_syntax

section \<open>Values, keys and user functions\<close>

text \<open>
  Objects live in stores and are named by their address, so that two references to one
  Dep, effect, ref or computed alias as they do in the source. A proxy is named by its
  wrap kind and its target (the four proxy caches of the source return one proxy per kind
  and target); the proxy built by \<open>proxyRefs\<close> is not cached and carries an identity of
  its own.
\<close>

type_synonym eid = nat
type_synonym did = nat
type_synonym rid = nat
type_synonym cid = nat
type_synonym addr = nat

datatype kind = Reactive | Readonly | ShallowReactive | ShallowReadonly

datatype jsval =
    VUndefined
  | VNum int
  | VNaN
  | VBool bool
  | VStr string
  | VFun string
  | VObj addr
  | VRef rid
  | VComputed cid
  | VProxy kind jsval
  | VUnwrap nat jsval

text \<open>
  Property keys are strings or symbols. \<open>KIdx i\<close> is the string that is the canonical
  decimal numeral of the array index \<open>i\<close>; \<open>KStr s\<close> is any other string; \<open>KSym\<close>
  is a symbol.
\<close>

datatype key = KStr string | KIdx nat | KSym nat

definition ITERATE_KEY :: key where
  "ITERATE_KEY = KSym 0"

definition MAP_KEY_ITERATE_KEY :: key where
  "MAP_KEY_ITERATE_KEY = KSym 1"

text \<open>
  The functions a user hands to the library (the \<open>fn\<close> of an effect, a getter, a
  scheduler) are closures over reactive data. They are kept as syntax: expressions that
  read refs, computeds and proxy properties, and statements that write them, create, run
  and stop effects, and push onto a log array. \<open>Effect lazy body ret\<close> is
  \<open>effect(() => { body; return ret }, { lazy })\<close>.
\<close>

datatype uexp =
    Lit jsval
  | RefValue rid
  | ComputedValue cid
  | Prop addr key
  | Cond uexp uexp uexp
  | Times uexp uexp

datatype ustmt =
    Push uexp
  | SetRef rid uexp
  | SetProp addr key uexp
  | Effect bool "ustmt list" uexp
  | RunEffect eid
  | StopEffect eid

type_synonym prog = "ustmt list \<times> uexp"

datatype sched = ComputedScheduler cid | UserScheduler prog

section \<open>The data model\<close>

text \<open>
  \<open>Dep = Set<ReactiveEffect> & TrackedMarkers\<close>. A JavaScript Set iterates in insertion
  order, so the members are a list without repetition. The markers are numbers that the
  source only touches with 32-bit bitwise operators.
\<close>

record dep_rec =
  d_set :: "eid list"
  d_w :: "32 word"
  d_n :: "32 word"

record effect_rec =
  active :: bool
  deps :: "did list"
  parent :: "eid option"
  computed :: "cid option"
  allowRecurse :: bool
  deferStop :: bool
  fn :: prog
  scheduler :: "sched option"
  onStop :: "prog option"

record ref_rec =
  r_value :: jsval
  r_rawValue :: jsval
  r_dep :: "did option"
  r_isShallow :: bool

record computed_rec =
  c_dep :: "did option"
  c_value :: jsval
  c_effect :: eid
  c_dirty :: bool
  c_cacheable :: bool
  c_isReadonly :: bool

datatype otype = OObject | OArray | OMap | OSet

record obj_rec =
  o_type :: otype
  o_props :: "(key \<times> jsval) list"
  o_length :: nat

text \<open>
  \<open>trace\<close> is a ghost field: the model appends an event wherever the source calls a
  function supplied by the user, and never reads it. \<open>warnings\<close> is the \<open>warn\<close> sink
  and \<open>ulog\<close> the array the user statements push onto.
\<close>

datatype event = EvFn eid | EvScheduler eid | EvOnStop eid

record state =
  effs :: "eid \<Rightarrow> effect_rec"
  dps :: "did \<Rightarrow> dep_rec"
  refs :: "rid \<Rightarrow> ref_rec"
  comps :: "cid \<Rightarrow> computed_rec"
  objs :: "addr \<Rightarrow> obj_rec"
  targetMap :: "addr \<Rightarrow> (key \<times> did) list option"
  activeEffect :: "eid option"
  shouldTrack :: bool
  trackStack :: "bool list"
  effectTrackDepth :: int
  trackOpBit :: "32 word"
  next_eff :: nat
  next_dep :: nat
  next_ref :: nat
  next_comp :: nat
  next_proxy :: nat
  trace :: "event list"
  warnings :: "string list"
  ulog :: "jsval list"

text \<open>
  A call either returns or does not. \<open>TypeError\<close> and \<open>RangeError\<close> are the exceptions
  the engine raises (reading a property of \<open>undefined\<close>, comparing a symbol with a
  number, an invalid array length); \<open>Diverges\<close> is a loop that never ends;
  \<open>OutOfFuel\<close> is a run of user code nested deeper than the budget of the interpreter
  below; \<open>Unmodelled\<close> marks an input outside the fragment the model covers. User
  functions of the model do not throw, so the \<open>finally\<close> block of \<open>run\<close> is only
  modelled on the path where \<open>fn\<close> returns.
\<close>

datatype error = TypeError | RangeError | Diverges | OutOfFuel | Unmodelled

type_synonym 'a res = "error + 'a"

definition bindR :: "'a res \<Rightarrow> ('a \<Rightarrow> 'b res) \<Rightarrow> 'b res" where
  "bindR m f = (case m of Inl err \<Rightarrow> Inl err | Inr x \<Rightarrow> f x)"

text \<open>
  The calls of the library into user code are parameters: \<open>call_fn K e\<close> is what
  \<open>e.fn()\<close> does, \<open>call_scheduler K e\<close> what \<open>e.scheduler()\<close> does,
  \<open>call_onStop K e\<close> what \<open>e.onStop()\<close> does and \<open>call_setter K c v\<close> what the
  setter handed to the computed \<open>c\<close> does with \<open>v\<close>.
\<close>

record callbacks =
  call_fn :: "eid \<Rightarrow> state \<Rightarrow> (jsval \<times> state) res"
  call_scheduler :: "eid \<Rightarrow> state \<Rightarrow> state res"
  call_onStop :: "eid \<Rightarrow> state \<Rightarrow> state res"
  call_setter :: "cid \<Rightarrow> jsval \<Rightarrow> state \<Rightarrow> state res"

section \<open>dep.ts\<close>

definition set_add :: "'a \<Rightarrow> 'a list \<Rightarrow> 'a list" where
  "set_add x xs = (if x \<in> set xs then xs else xs @ [x])"

definition set_delete :: "'a \<Rightarrow> 'a list \<Rightarrow> 'a list" where
  "set_delete x xs = removeAll x xs"

definition createDep :: "eid list \<Rightarrow> dep_rec" where
  "createDep effects = \<lparr>d_set = foldl (\<lambda>acc e. set_add e acc) [] effects, d_w = 0, d_n = 0\<rparr>"

definition wasTracked :: "state \<Rightarrow> did \<Rightarrow> bool" where
  "wasTracked s d = (0 < sint (d_w (dps s d) AND trackOpBit s))"

definition newTracked :: "state \<Rightarrow> did \<Rightarrow> bool" where
  "newTracked s d = (0 < sint (d_n (dps s d) AND trackOpBit s))"

definition set_w :: "did \<Rightarrow> state \<Rightarrow> state" where
  "set_w d s = s\<lparr>dps := (dps s)(d := (dps s d)\<lparr>d_w := d_w (dps s d) OR trackOpBit s\<rparr>)\<rparr>"

definition set_n :: "did \<Rightarrow> state \<Rightarrow> state" where
  "set_n d s = s\<lparr>dps := (dps s)(d := (dps s d)\<lparr>d_n := d_n (dps s d) OR trackOpBit s\<rparr>)\<rparr>"

definition clear_bits :: "did \<Rightarrow> state \<Rightarrow> state" where
  "clear_bits d s = s\<lparr>dps := (dps s)(d := (dps s d)
     \<lparr>d_w := d_w (dps s d) AND NOT (trackOpBit s), d_n := d_n (dps s d) AND NOT (trackOpBit s)\<rparr>)\<rparr>"

definition dep_add :: "did \<Rightarrow> eid \<Rightarrow> state \<Rightarrow> state" where
  "dep_add d e s = s\<lparr>dps := (dps s)(d := (dps s d)\<lparr>d_set := set_add e (d_set (dps s d))\<rparr>)\<rparr>"

definition dep_delete :: "did \<Rightarrow> eid \<Rightarrow> state \<Rightarrow> state" where
  "dep_delete d e s = s\<lparr>dps := (dps s)(d := (dps s d)\<lparr>d_set := set_delete e (d_set (dps s d))\<rparr>)\<rparr>"

definition set_deps :: "eid \<Rightarrow> did list \<Rightarrow> state \<Rightarrow> state" where
  "set_deps e ds s = s\<lparr>effs := (effs s)(e := (effs s e)\<lparr>deps := ds\<rparr>)\<rparr>"

definition initDepMarkers :: "eid \<Rightarrow> state \<Rightarrow> state" where
  "initDepMarkers e s = fold set_w (deps (effs s e)) s"

text \<open>
  The loop of \<open>finalizeDepMarkers\<close> compacts \<open>deps\<close> in place behind a write pointer that
  never passes the read index; the model returns the kept prefix instead. The state is
  threaded through, so a Dep that occurs twice is seen the second time with its bits
  already cleared.
\<close>

fun finalize_loop :: "eid \<Rightarrow> did list \<Rightarrow> state \<Rightarrow> did list \<times> state" where
  "finalize_loop e [] s = ([], s)"
| "finalize_loop e (d # ds) s =
     (if wasTracked s d \<and> \<not> newTracked s d
      then finalize_loop e ds (clear_bits d (dep_delete d e s))
      else (case finalize_loop e ds (clear_bits d s) of (kept, s') \<Rightarrow> (d # kept, s')))"

definition finalizeDepMarkers :: "eid \<Rightarrow> state \<Rightarrow> state" where
  "finalizeDepMarkers e s =
     (if deps (effs s e) \<noteq> []
      then (case finalize_loop e (deps (effs s e)) s of (kept, s') \<Rightarrow> set_deps e kept s')
      else s)"

section \<open>effect.ts\<close>

definition maxMarkerBits :: int where
  "maxMarkerBits = 30"

text \<open>\<open>1 << k\<close>: the shift count of a JavaScript shift is taken modulo 32.\<close>

definition shl1 :: "int \<Rightarrow> 32 word" where
  "shl1 k = push_bit (nat (k mod 32)) 1"

definition cleanupEffect :: "eid \<Rightarrow> state \<Rightarrow> state" where
  "cleanupEffect e s =
     (if deps (effs s e) \<noteq> []
      then set_deps e [] (fold (\<lambda>d t. dep_delete d e t) (deps (effs s e)) s)
      else s)"

definition stop :: "callbacks \<Rightarrow> eid \<Rightarrow> state \<Rightarrow> state res" where
  "stop K e s =
     (if activeEffect s = Some e
      then Inr (s\<lparr>effs := (effs s)(e := (effs s e)\<lparr>deferStop := True\<rparr>)\<rparr>)
      else if active (effs s e)
      then bindR (let s1 = cleanupEffect e s in
                  if onStop (effs s1 e) \<noteq> None
                  then call_onStop K e (s1\<lparr>trace := trace s1 @ [EvOnStop e]\<rparr>)
                  else Inr s1)
             (\<lambda>s2. Inr (s2\<lparr>effs := (effs s2)(e := (effs s2 e)\<lparr>active := False\<rparr>)\<rparr>))
      else Inr s)"

text \<open>
  The walk along the \<open>parent\<close> links in \<open>run\<close>. It ends when the links do; on a cyclic
  chain that does not hold the effect it never ends, which is the value \<open>None\<close>.
\<close>

partial_function (option) walk_parents :: "(eid \<Rightarrow> effect_rec) \<Rightarrow> eid option \<Rightarrow> eid \<Rightarrow> bool option" where
  "walk_parents es p e =
     (case p of None \<Rightarrow> Some False
      | Some q \<Rightarrow> if q = e then Some True else walk_parents es (parent (es q)) e)"

declare walk_parents.simps [code]

text \<open>
  \<open>run\<close>: \<open>run_try\<close> is the \<open>try\<close> block up to the call of \<open>fn\<close>, \<open>run_finally\<close>
  the \<open>finally\<close> block up to the test of \<open>deferStop\<close>; \<open>lastShouldTrack\<close> is read
  before the walk.
\<close>

definition run_try :: "eid \<Rightarrow> state \<Rightarrow> state" where
  "run_try e s =
     (let s1 = s\<lparr>effs := (effs s)(e := (effs s e)\<lparr>parent := activeEffect s\<rparr>),
                 activeEffect := Some e,
                 shouldTrack := True,
                 effectTrackDepth := effectTrackDepth s + 1,
                 trackOpBit := shl1 (effectTrackDepth s + 1)\<rparr>
      in if effectTrackDepth s1 \<le> maxMarkerBits then initDepMarkers e s1
         else cleanupEffect e s1)"

definition run_finally :: "eid \<Rightarrow> bool \<Rightarrow> state \<Rightarrow> state" where
  "run_finally e lastShouldTrack s =
     (let s1 = (if effectTrackDepth s \<le> maxMarkerBits then finalizeDepMarkers e s else s)
      in s1\<lparr>effectTrackDepth := effectTrackDepth s1 - 1,
             trackOpBit := shl1 (effectTrackDepth s1 - 1),
             activeEffect := parent (effs s1 e),
             shouldTrack := lastShouldTrack,
             effs := (effs s1)(e := (effs s1 e)\<lparr>parent := None\<rparr>)\<rparr>)"

definition call_logged :: "callbacks \<Rightarrow> eid \<Rightarrow> state \<Rightarrow> (jsval \<times> state) res" where
  "call_logged K e s = call_fn K e (s\<lparr>trace := trace s @ [EvFn e]\<rparr>)"

definition run :: "callbacks \<Rightarrow> eid \<Rightarrow> state \<Rightarrow> (jsval \<times> state) res" where
  "run K e s =
     (if \<not> active (effs s e) then call_logged K e s
      else (case walk_parents (effs s) (activeEffect s) e of
        None \<Rightarrow> Inl Diverges
      | Some True \<Rightarrow> Inr (VUndefined, s)
      | Some False \<Rightarrow>
          bindR (call_logged K e (run_try e s)) (\<lambda>(v, s1).
            let s2 = run_finally e (shouldTrack s) s1
            in if deferStop (effs s2 e)
               then bindR (stop K e s2) (\<lambda>s3. Inr (v, s3))
               else Inr (v, s2))))"

definition pauseTracking :: "state \<Rightarrow> state" where
  "pauseTracking s = s\<lparr>trackStack := trackStack s @ [shouldTrack s], shouldTrack := False\<rparr>"

definition enableTracking :: "state \<Rightarrow> state" where
  "enableTracking s = s\<lparr>trackStack := trackStack s @ [shouldTrack s], shouldTrack := True\<rparr>"

definition resetTracking :: "state \<Rightarrow> state" where
  "resetTracking s =
     (if trackStack s = [] then s\<lparr>shouldTrack := True\<rparr>
      else s\<lparr>trackStack := butlast (trackStack s), shouldTrack := last (trackStack s)\<rparr>)"

text \<open>
  \<open>trackEffects\<close>. The source reads \<open>activeEffect!\<close>: with no active effect and
  \<open>shouldTrack\<close> true, \<open>activeEffect!.deps\<close> is a read of a property of \<open>undefined\<close>.
  The debugger hooks \<open>onTrack\<close> and \<open>onTrigger\<close> are development aids; effects of the
  model carry none.
\<close>

definition trackEffects :: "did \<Rightarrow> state \<Rightarrow> state res" where
  "trackEffects d s =
     (let (shouldTrack', s1) =
        (if effectTrackDepth s \<le> maxMarkerBits
         then (if \<not> newTracked s d then (\<not> wasTracked (set_n d s) d, set_n d s) else (False, s))
         else (case activeEffect s of None \<Rightarrow> True | Some a \<Rightarrow> a \<notin> set (d_set (dps s d)), s))
      in if shouldTrack'
         then (case activeEffect s1 of
                 None \<Rightarrow> Inl TypeError
               | Some a \<Rightarrow> Inr (set_deps a (deps (effs s1 a) @ [d]) (dep_add d a s1)))
         else Inr s1)"

text \<open>
  \<open>track\<close>: the operation type only feeds the debugger event and is left out. A Map
  iterates in insertion order, so a \<open>KeyToDepMap\<close> is an association list that grows at
  its end.
\<close>

definition track :: "addr \<Rightarrow> key \<Rightarrow> state \<Rightarrow> state res" where
  "track target k s =
     (if shouldTrack s \<and> activeEffect s \<noteq> None
      then (let depsMap = (case targetMap s target of None \<Rightarrow> [] | Some m \<Rightarrow> m)
            in case map_of depsMap k of
                 Some d \<Rightarrow> trackEffects d (s\<lparr>targetMap := (targetMap s)(target := Some depsMap)\<rparr>)
               | None \<Rightarrow>
                   (let d = next_dep s
                    in trackEffects d
                         (s\<lparr>targetMap := (targetMap s)(target := Some (depsMap @ [(k, d)])),
                            dps := (dps s)(d := createDep []),
                            next_dep := Suc d\<rparr>)))
      else Inr s)"

definition triggerEffect :: "callbacks \<Rightarrow> eid \<Rightarrow> state \<Rightarrow> state res" where
  "triggerEffect K e s =
     (if activeEffect s \<noteq> Some e \<or> allowRecurse (effs s e)
      then (if scheduler (effs s e) \<noteq> None
            then call_scheduler K e (s\<lparr>trace := trace s @ [EvScheduler e]\<rparr>)
            else bindR (run K e s) (\<lambda>(v, s'). Inr s'))
      else Inr s)"

text \<open>
  \<open>triggerEffects\<close> first spreads its argument into an array; the model takes that
  array. Each of the two loops reads \<open>effect.computed\<close> when it reaches the effect.
\<close>

fun trigger_loop :: "callbacks \<Rightarrow> bool \<Rightarrow> eid list \<Rightarrow> state \<Rightarrow> state res" where
  "trigger_loop K want [] s = Inr s"
| "trigger_loop K want (e # es) s =
     bindR (if (computed (effs s e) \<noteq> None) = want then triggerEffect K e s else Inr s)
       (\<lambda>s'. trigger_loop K want es s')"

definition triggerEffects :: "callbacks \<Rightarrow> eid list \<Rightarrow> state \<Rightarrow> state res" where
  "triggerEffects K effects s =
     bindR (trigger_loop K True effects s) (\<lambda>s'. trigger_loop K False effects s')"

section \<open>Helpers of reactive.ts and of the shared package\<close>

text \<open>
  Modelled from the spec: \<open>reactive.ts\<close> and \<open>@vue/shared\<close> are not among the source
  files. The spec gives \<open>toRaw(reactive(x)) === x\<close>, \<open>reactive(reactive(x)) ===
  reactive(x)\<close>, one cached proxy per wrap kind and target, and the flags a proxy reports
  (the getter of \<open>baseHandlers.ts\<close> answers \<open>__v_isReactive\<close> with \<open>!isReadonly\<close>,
  \<open>__v_isReadonly\<close> with \<open>isReadonly\<close>, \<open>__v_isShallow\<close> with \<open>shallow\<close> and
  \<open>__v_raw\<close> with the target).
\<close>

fun is_readonly_kind :: "kind \<Rightarrow> bool" where
  "is_readonly_kind Readonly = True"
| "is_readonly_kind ShallowReadonly = True"
| "is_readonly_kind _ = False"

fun is_shallow_kind :: "kind \<Rightarrow> bool" where
  "is_shallow_kind ShallowReactive = True"
| "is_shallow_kind ShallowReadonly = True"
| "is_shallow_kind _ = False"

definition kind_of :: "bool \<Rightarrow> bool \<Rightarrow> kind" where
  "kind_of isReadonly shallow =
     (if isReadonly then (if shallow then ShallowReadonly else Readonly)
      else (if shallow then ShallowReactive else Reactive))"

fun toRaw :: "jsval \<Rightarrow> jsval" where
  "toRaw (VProxy k t) = toRaw t"
| "toRaw v = v"

fun isReadonly :: "jsval \<Rightarrow> bool" where
  "isReadonly (VProxy k t) = is_readonly_kind k"
| "isReadonly v = False"

fun isShallow :: "jsval \<Rightarrow> bool" where
  "isShallow (VProxy k t) = is_shallow_kind k"
| "isShallow v = False"

fun isReactive :: "jsval \<Rightarrow> bool" where
  "isReactive (VProxy k t) = (if is_readonly_kind k then isReactive t else True)"
| "isReactive v = False"

fun isProxy :: "jsval \<Rightarrow> bool" where
  "isProxy (VProxy k t) = True"
| "isProxy v = False"

text \<open>
  Modelled from the spec: \<open>isObject\<close> of the shared package (\<open>typeof\<close> is \<open>object\<close> and
  the value is not \<open>null\<close>).
\<close>

fun isObject :: "jsval \<Rightarrow> bool" where
  "isObject (VObj a) = True"
| "isObject (VRef r) = True"
| "isObject (VComputed c) = True"
| "isObject (VProxy k t) = True"
| "isObject (VUnwrap i t) = True"
| "isObject v = False"

text \<open>
  Modelled from the spec: \<open>reactive\<close>, \<open>readonly\<close> and \<open>toReactive\<close> of
  \<open>reactive.ts\<close>. A proxy handed to \<open>reactive\<close> comes back as it is; \<open>readonly\<close> of a
  readonly proxy is that proxy. Objects that refuse a proxy (marked raw, frozen) are not
  represented.
\<close>

definition reactive :: "jsval \<Rightarrow> jsval" where
  "reactive v = (if isObject v \<and> \<not> isProxy v then VProxy Reactive v else v)"

definition readonly :: "jsval \<Rightarrow> jsval" where
  "readonly v = (if isObject v \<and> \<not> isReadonly v then VProxy Readonly v else v)"

definition toReactive :: "jsval \<Rightarrow> jsval" where
  "toReactive v = (if isObject v then reactive v else v)"

text \<open>
  Modelled from the spec: \<open>hasChanged\<close> of the shared package, the negation of ``same
  value or both NaN''. Values of the model are equal exactly when they are the same
  primitive (\<open>VNaN\<close> is one value) or the same object.
\<close>

definition hasChanged :: "jsval \<Rightarrow> jsval \<Rightarrow> bool" where
  "hasChanged v oldValue \<longleftrightarrow> v \<noteq> oldValue"

text \<open>
  Modelled from the spec: \<open>isIntegerKey\<close> of the shared package; index keys are
  exactly the \<open>KIdx\<close> keys.
\<close>

fun isIntegerKey :: "key \<Rightarrow> bool" where
  "isIntegerKey (KIdx i) = True"
| "isIntegerKey k = False"

fun isSymbol :: "key \<Rightarrow> bool" where
  "isSymbol (KSym i) = True"
| "isSymbol k = False"

definition isArray :: "state \<Rightarrow> addr \<Rightarrow> bool" where
  "isArray s a \<longleftrightarrow> o_type (objs s a) = OArray"

definition isMap :: "state \<Rightarrow> addr \<Rightarrow> bool" where
  "isMap s a \<longleftrightarrow> o_type (objs s a) = OMap"

section \<open>ref.ts\<close>

fun isRef :: "jsval \<Rightarrow> bool" where
  "isRef (VRef r) = True"
| "isRef (VComputed c) = True"
| "isRef (VProxy k t) = isRef t"
| "isRef (VUnwrap i t) = isRef t"
| "isRef v = False"

fun get_dep :: "jsval \<Rightarrow> state \<Rightarrow> did option" where
  "get_dep (VRef r) s = r_dep (refs s r)"
| "get_dep (VComputed c) s = c_dep (comps s c)"
| "get_dep v s = None"

fun set_dep :: "jsval \<Rightarrow> did \<Rightarrow> state \<Rightarrow> state" where
  "set_dep (VRef r) d s = s\<lparr>refs := (refs s)(r := (refs s r)\<lparr>r_dep := Some d\<rparr>)\<rparr>"
| "set_dep (VComputed c) d s = s\<lparr>comps := (comps s)(c := (comps s c)\<lparr>c_dep := Some d\<rparr>)\<rparr>"
| "set_dep v d s = s"

text \<open>\<open>ref.dep || (ref.dep = createDep())\<close>: the Dep of a ref is made at its first read.\<close>

definition dep_of_ref :: "jsval \<Rightarrow> state \<Rightarrow> did \<times> state" where
  "dep_of_ref ref s =
     (case get_dep ref s of
        Some d \<Rightarrow> (d, s)
      | None \<Rightarrow> (next_dep s,
          set_dep ref (next_dep s)
            (s\<lparr>dps := (dps s)(next_dep s := createDep []), next_dep := Suc (next_dep s)\<rparr>)))"

definition trackRefValue :: "jsval \<Rightarrow> state \<Rightarrow> state res" where
  "trackRefValue ref s =
     (if shouldTrack s \<and> activeEffect s \<noteq> None
      then (case dep_of_ref (toRaw ref) s of (d, s') \<Rightarrow> trackEffects d s')
      else Inr s)"

definition triggerRefValue :: "callbacks \<Rightarrow> jsval \<Rightarrow> state \<Rightarrow> state res" where
  "triggerRefValue K ref s =
     (case get_dep (toRaw ref) s of
        Some d \<Rightarrow> triggerEffects K (d_set (dps s d)) s
      | None \<Rightarrow> Inr s)"

definition RefImpl :: "jsval \<Rightarrow> bool \<Rightarrow> state \<Rightarrow> jsval \<times> state" where
  "RefImpl v shallow s =
     (VRef (next_ref s),
      s\<lparr>refs := (refs s)(next_ref s :=
            \<lparr>r_value = (if shallow then v else toReactive v),
             r_rawValue = (if shallow then v else toRaw v),
             r_dep = None,
             r_isShallow = shallow\<rparr>),
        next_ref := Suc (next_ref s)\<rparr>)"

definition createRef :: "jsval \<Rightarrow> bool \<Rightarrow> state \<Rightarrow> jsval \<times> state" where
  "createRef rawValue shallow s = (if isRef rawValue then (rawValue, s) else RefImpl rawValue shallow s)"

definition ref :: "jsval \<Rightarrow> state \<Rightarrow> jsval \<times> state" where
  "ref v s = createRef v False s"

definition shallowRef :: "jsval \<Rightarrow> state \<Rightarrow> jsval \<times> state" where
  "shallowRef v s = createRef v True s"

definition ref_get_value :: "rid \<Rightarrow> state \<Rightarrow> (jsval \<times> state) res" where
  "ref_get_value r s = bindR (trackRefValue (VRef r) s) (\<lambda>s'. Inr (r_value (refs s' r), s'))"

definition ref_store :: "rid \<Rightarrow> jsval \<Rightarrow> state \<Rightarrow> state" where
  "ref_store r newVal s =
     s\<lparr>refs := (refs s)(r := (refs s r)
         \<lparr>r_rawValue := newVal,
          r_value := (if r_isShallow (refs s r) then newVal else toReactive newVal)\<rparr>)\<rparr>"

definition ref_set_value :: "callbacks \<Rightarrow> rid \<Rightarrow> jsval \<Rightarrow> state \<Rightarrow> state res" where
  "ref_set_value K r v s =
     (let newVal = (if r_isShallow (refs s r) then v else toRaw v)
      in if hasChanged newVal (r_rawValue (refs s r))
         then triggerRefValue K (VRef r) (ref_store r newVal s)
         else Inr s)"

definition triggerRef :: "callbacks \<Rightarrow> jsval \<Rightarrow> state \<Rightarrow> state res" where
  "triggerRef K r s = triggerRefValue K r s"

section \<open>computed.ts\<close>

text \<open>
  \<open>new ReactiveEffect(fn, scheduler)\<close>. \<open>recordEffectScope\<close> only files the effect with
  the active effect scope; scopes are not among the source files and none is active in
  the model.
\<close>

definition ReactiveEffect :: "prog \<Rightarrow> sched option \<Rightarrow> state \<Rightarrow> eid \<times> state" where
  "ReactiveEffect f sch s =
     (next_eff s,
      s\<lparr>effs := (effs s)(next_eff s :=
            \<lparr>active = True, deps = [], parent = None, computed = None, allowRecurse = False,
             deferStop = False, fn = f, scheduler = sch, onStop = None\<rparr>),
        next_eff := Suc (next_eff s)\<rparr>)"

definition ComputedRefImpl :: "prog \<Rightarrow> bool \<Rightarrow> bool \<Rightarrow> state \<Rightarrow> cid \<times> state" where
  "ComputedRefImpl getter isReadonly' isSSR s =
     (let c = next_comp s;
          (e, s1) = ReactiveEffect getter (Some (ComputedScheduler c)) s
      in (c, s1\<lparr>effs := (effs s1)(e := (effs s1 e)\<lparr>computed := Some c, active := \<not> isSSR\<rparr>),
                comps := (comps s1)(c :=
                  \<lparr>c_dep = None, c_value = VUndefined, c_effect = e, c_dirty = True,
                   c_cacheable = \<not> isSSR, c_isReadonly = isReadonly'\<rparr>),
                next_comp := Suc c\<rparr>))"

text \<open>The scheduler the constructor gives to the effect of the computed.\<close>

definition computed_scheduler :: "callbacks \<Rightarrow> cid \<Rightarrow> state \<Rightarrow> state res" where
  "computed_scheduler K c s =
     (if \<not> c_dirty (comps s c)
      then triggerRefValue K (VComputed c) (s\<lparr>comps := (comps s)(c := (comps s c)\<lparr>c_dirty := True\<rparr>)\<rparr>)
      else Inr s)"

definition computed_get_value :: "callbacks \<Rightarrow> cid \<Rightarrow> state \<Rightarrow> (jsval \<times> state) res" where
  "computed_get_value K c s =
     bindR (trackRefValue (VComputed c) s) (\<lambda>s1.
       if c_dirty (comps s1 c) \<or> \<not> c_cacheable (comps s1 c)
       then bindR (run K (c_effect (comps s1 c))
                     (s1\<lparr>comps := (comps s1)(c := (comps s1 c)\<lparr>c_dirty := False\<rparr>)\<rparr>))
              (\<lambda>(v, s2). Inr (v, s2\<lparr>comps := (comps s2)(c := (comps s2 c)\<lparr>c_value := v\<rparr>)\<rparr>))
       else Inr (c_value (comps s1 c), s1))"

definition computed_set_value :: "callbacks \<Rightarrow> cid \<Rightarrow> jsval \<Rightarrow> state \<Rightarrow> state res" where
  "computed_set_value K c v s = call_setter K c v s"

text \<open>
  \<open>computed(getter)\<close>: a getter alone makes the computed readonly; the server-side flag
  is the third parameter of the source.
\<close>

definition computed_of :: "prog \<Rightarrow> bool \<Rightarrow> state \<Rightarrow> cid \<times> state" where
  "computed_of getter isSSR s = ComputedRefImpl getter True isSSR s"

text \<open>Reading and writing \<open>x.value\<close> for a value \<open>x\<close> that passed \<open>isRef\<close>.\<close>

fun value_of :: "callbacks \<Rightarrow> jsval \<Rightarrow> state \<Rightarrow> (jsval \<times> state) res" where
  "value_of K (VRef r) s = ref_get_value r s"
| "value_of K (VComputed c) s = computed_get_value K c s"
| "value_of K v s = Inl Unmodelled"

fun assign_value :: "callbacks \<Rightarrow> jsval \<Rightarrow> jsval \<Rightarrow> state \<Rightarrow> state res" where
  "assign_value K (VRef r) v s = ref_set_value K r v s"
| "assign_value K (VComputed c) v s = computed_set_value K c v s"
| "assign_value K x v s = Inl Unmodelled"

definition unref :: "callbacks \<Rightarrow> jsval \<Rightarrow> state \<Rightarrow> (jsval \<times> state) res" where
  "unref K v s = (if isRef v then value_of K v s else Inr (v, s))"

section \<open>effect.ts: trigger and effect\<close>

datatype TriggerOpTypes = SET | ADD | DELETE | CLEAR

text \<open>
  \<open>key >= newValue\<close> in the length branch of \<open>trigger\<close> compares a key of the
  \<open>KeyToDepMap\<close>, a string or a symbol, with a number, so JavaScript turns the key
  into a number first. For a string that is the operation \<open>StringToNumber\<close> of
  ECMAScript: white space is trimmed, the empty string is 0, and the rest is read as
  \<open>Infinity\<close>, as a decimal literal with optional sign, fraction and exponent, or as an
  unsigned binary, octal or hexadecimal literal; any other string is \<open>NaN\<close>.
  \<open>Decimal m e\<close> is the number \<open>m * 10 ^ e\<close> before it is rounded to a double. The
  strings of the model are strings of ASCII characters: for a string with another
  character the answer is \<open>None\<close>.
\<close>

datatype strnum = NotANumber | Infinite bool | Decimal int int

definition is_ws :: "char \<Rightarrow> bool" where
  "is_ws c \<longleftrightarrow> c \<in> set [CHR 0x09, CHR 0x0A, CHR 0x0B, CHR 0x0C, CHR 0x0D, CHR '' '']"

definition digit_of :: "char \<Rightarrow> nat option" where
  "digit_of = map_of
     [(CHR ''0'', 0), (CHR ''1'', 1), (CHR ''2'', 2), (CHR ''3'', 3), (CHR ''4'', 4),
      (CHR ''5'', 5), (CHR ''6'', 6), (CHR ''7'', 7), (CHR ''8'', 8), (CHR ''9'', 9),
      (CHR ''a'', 10), (CHR ''b'', 11), (CHR ''c'', 12), (CHR ''d'', 13), (CHR ''e'', 14),
      (CHR ''f'', 15),
      (CHR ''A'', 10), (CHR ''B'', 11), (CHR ''C'', 12), (CHR ''D'', 13), (CHR ''E'', 14),
      (CHR ''F'', 15)]"

definition is_digit :: "nat \<Rightarrow> char \<Rightarrow> bool" where
  "is_digit b c = (case digit_of c of None \<Rightarrow> False | Some d \<Rightarrow> d < b)"

fun digits_value :: "nat \<Rightarrow> nat \<Rightarrow> string \<Rightarrow> nat" where
  "digits_value b acc [] = acc"
| "digits_value b acc (c # cs) =
     digits_value b (acc * b + (case digit_of c of None \<Rightarrow> 0 | Some d \<Rightarrow> d)) cs"

text \<open>The exponent part of a decimal literal, if the rest of the string is one or empty.\<close>

definition exponent_part :: "string \<Rightarrow> int option" where
  "exponent_part s =
     (if s = [] then Some 0
      else if hd s = CHR ''e'' \<or> hd s = CHR ''E''
      then (let t = tl s;
                neg = (t \<noteq> [] \<and> hd t = CHR ''-'');
                ds = (if t \<noteq> [] \<and> (hd t = CHR ''-'' \<or> hd t = CHR ''+'') then tl t else t)
            in if ds \<noteq> [] \<and> list_all (is_digit 10) ds
               then Some ((if neg then - 1 else 1) * int (digits_value 10 0 ds))
               else None)
      else None)"

text \<open>
  \<open>StrUnsignedDecimalLiteral\<close>: \<open>Infinity\<close>, or digits with an optional fraction, or a
  fraction alone, each with an optional exponent part.
\<close>

definition unsigned_decimal :: "string \<Rightarrow> strnum" where
  "unsigned_decimal s =
     (if s = ''Infinity'' then Infinite True
      else (let a = takeWhile (is_digit 10) s;
                r = dropWhile (is_digit 10) s;
                dot = (r \<noteq> [] \<and> hd r = CHR ''.'');
                b = (if dot then takeWhile (is_digit 10) (tl r) else []);
                r' = (if dot then dropWhile (is_digit 10) (tl r) else r)
            in if a = [] \<and> b = [] then NotANumber
               else (case exponent_part r' of
                       None \<Rightarrow> NotANumber
                     | Some x \<Rightarrow> Decimal (int (digits_value 10 0 (a @ b))) (x - int (length b)))))"

fun negated :: "strnum \<Rightarrow> strnum" where
  "negated NotANumber = NotANumber"
| "negated (Infinite b) = Infinite (\<not> b)"
| "negated (Decimal m e) = Decimal (- m) e"

definition radix_of :: "char \<Rightarrow> nat option" where
  "radix_of = map_of
     [(CHR ''x'', 16), (CHR ''X'', 16), (CHR ''o'', 8), (CHR ''O'', 8), (CHR ''b'', 2),
      (CHR ''B'', 2)]"

text \<open>
  \<open>StrNumericLiteral\<close>: a literal with a radix prefix takes no sign; a decimal literal
  takes one.
\<close>

definition numeric_literal :: "string \<Rightarrow> strnum" where
  "numeric_literal s =
     (case s of
        c # x # ds \<Rightarrow>
          (case (if c = CHR ''0'' then radix_of x else None) of
             Some b \<Rightarrow> (if ds \<noteq> [] \<and> list_all (is_digit b) ds
                        then Decimal (int (digits_value b 0 ds)) 0 else NotANumber)
           | None \<Rightarrow> (if c = CHR ''-'' then negated (unsigned_decimal (x # ds))
                      else if c = CHR ''+'' then unsigned_decimal (x # ds)
                      else unsigned_decimal s))
      | _ \<Rightarrow> unsigned_decimal s)"

definition StringToNumber :: "string \<Rightarrow> strnum option" where
  "StringToNumber s =
     (if list_ex digit7 s then None
      else (let t = rev (dropWhile is_ws (rev (dropWhile is_ws s)))
            in Some (if t = [] then Decimal 0 0 else numeric_literal t)))"

text \<open>
  \<open>x >= n\<close> for the number \<open>x\<close> read from a string and an integer \<open>n\<close> that a double
  holds exactly. \<open>NaN\<close> compares false. A decimal \<open>p / q\<close> is rounded to the nearest
  double before it is compared; rounding keeps the order, so the answer is that of the
  exact comparison when \<open>n \<le> p / q\<close> and when \<open>p / q \<le> n - 1\<close>. In between, the
  answer is false when the literal has at most 20 digits, up to which the rounding is
  exact, and \<open>p / q\<close> is below \<open>n\<close> by more than \<open>\<bar>n\<bar> / 2 ^ 53\<close>, and by at least
  \<open>2 ^ - 1074\<close> when \<open>n\<close> is 0: that is more than half the distance from \<open>n\<close> to the
  double before it. The remaining cases are left outside the model.
\<close>

definition number_ge :: "strnum \<Rightarrow> int \<Rightarrow> bool res" where
  "number_ge x n =
     (case x of
        NotANumber \<Rightarrow> Inr False
      | Infinite b \<Rightarrow> Inr b
      | Decimal m e \<Rightarrow>
          (let p = (if 0 \<le> e then m * 10 ^ nat e else m);
               q = (if 0 \<le> e then 1 else 10 ^ nat (- e))
           in if 2 ^ 53 \<le> \<bar>n\<bar> then Inl Unmodelled
              else if n * q \<le> p then Inr True
              else if p \<le> (n - 1) * q then Inr False
              else if \<bar>m\<bar> < 10 ^ 20 \<and> \<bar>n\<bar> * q < (n * q - p) * 2 ^ 53
                      \<and> (n = 0 \<longrightarrow> q \<le> - p * 2 ^ 1074)
              then Inr False
              else Inl Unmodelled))"

text \<open>
  \<open>key >= newValue\<close>: an index key is its index, another string key is the number it
  reads as, and turning a symbol into a number throws a TypeError. The new value is the
  length just written, a number; other values are outside the model.
\<close>

fun key_ge :: "key \<Rightarrow> jsval \<Rightarrow> bool res" where
  "key_ge (KSym i) v = Inl TypeError"
| "key_ge (KIdx i) (VNum m) = Inr (m \<le> int i)"
| "key_ge (KStr str) (VNum m) =
     (case StringToNumber str of None \<Rightarrow> Inl Unmodelled | Some x \<Rightarrow> number_ge x m)"
| "key_ge k v = Inl Unmodelled"

text \<open>
  \<open>depsMap.forEach\<close> of the length branch, in the insertion order of the map.
\<close>

fun length_deps :: "(key \<times> did) list \<Rightarrow> jsval \<Rightarrow> did option list res" where
  "length_deps [] newValue = Inr []"
| "length_deps ((k, dep) # m) newValue =
     (if k = KStr ''length''
      then bindR (length_deps m newValue) (\<lambda>ds. Inr (Some dep # ds))
      else bindR (key_ge k newValue) (\<lambda>b.
             bindR (length_deps m newValue) (\<lambda>ds. Inr (if b then Some dep # ds else ds))))"

text \<open>
  The Deps \<open>trigger\<close> gathers; \<open>None\<close> is the \<open>undefined\<close> of a key without Dep.
  The parameters \<open>oldValue\<close> and \<open>oldTarget\<close> only feed the debugger event and are
  left out.
\<close>

definition trigger_deps ::
  "state \<Rightarrow> (key \<times> did) list \<Rightarrow> addr \<Rightarrow> TriggerOpTypes \<Rightarrow> key option \<Rightarrow> jsval \<Rightarrow> did option list res" where
  "trigger_deps s depsMap target type k newValue =
     (if type = CLEAR then Inr (map (\<lambda>(k', dep). Some dep) depsMap)
      else if k = Some (KStr ''length'') \<and> isArray s target then length_deps depsMap newValue
      else Inr
        ((case k of None \<Rightarrow> [] | Some k' \<Rightarrow> [map_of depsMap k']) @
         (case type of
            ADD \<Rightarrow>
              (if \<not> isArray s target
               then map_of depsMap ITERATE_KEY #
                    (if isMap s target then [map_of depsMap MAP_KEY_ITERATE_KEY] else [])
               else if (case k of Some k' \<Rightarrow> isIntegerKey k' | None \<Rightarrow> False)
               then [map_of depsMap (KStr ''length'')]
               else [])
          | DELETE \<Rightarrow>
              (if \<not> isArray s target
               then map_of depsMap ITERATE_KEY #
                    (if isMap s target then [map_of depsMap MAP_KEY_ITERATE_KEY] else [])
               else [])
          | SET \<Rightarrow> (if isMap s target then [map_of depsMap ITERATE_KEY] else [])
          | CLEAR \<Rightarrow> [])))"

text \<open>The members of the gathered Deps, spread in order into one array.\<close>

fun spread_deps :: "state \<Rightarrow> did option list \<Rightarrow> eid list" where
  "spread_deps s [] = []"
| "spread_deps s (None # ds) = spread_deps s ds"
| "spread_deps s (Some d # ds) = d_set (dps s d) @ spread_deps s ds"

definition trigger ::
  "callbacks \<Rightarrow> addr \<Rightarrow> TriggerOpTypes \<Rightarrow> key option \<Rightarrow> jsval \<Rightarrow> state \<Rightarrow> state res" where
  "trigger K target type k newValue s =
     (case targetMap s target of
        None \<Rightarrow> Inr s
      | Some depsMap \<Rightarrow>
          bindR (trigger_deps s depsMap target type k newValue) (\<lambda>ds.
            if length ds = 1
            then (case hd ds of
                    Some d \<Rightarrow> triggerEffects K (d_set (dps s d)) s
                  | None \<Rightarrow> Inr s)
            else triggerEffects K (d_set (createDep (spread_deps s ds))) s))"

text \<open>
  \<open>effect(fn, options)\<close>. The function handed in is a plain function, not a runner.
  \<open>extend(_effect, options)\<close> copies the options onto the effect; the scope and the
  debugger hooks are left out. The runner is named by its effect.
\<close>

record effect_options =
  opt_lazy :: bool
  opt_scheduler :: "prog option"
  opt_allowRecurse :: bool
  opt_onStop :: "prog option"

definition extend_effect :: "eid \<Rightarrow> effect_options \<Rightarrow> state \<Rightarrow> state" where
  "extend_effect e opts s =
     s\<lparr>effs := (effs s)(e := (effs s e)
         \<lparr>scheduler := map_option UserScheduler (opt_scheduler opts),
          allowRecurse := opt_allowRecurse opts,
          onStop := opt_onStop opts\<rparr>)\<rparr>"

definition effect :: "callbacks \<Rightarrow> prog \<Rightarrow> effect_options option \<Rightarrow> state \<Rightarrow> (eid \<times> state) res" where
  "effect K f options s =
     (let (e, s1) = ReactiveEffect f None s;
          s2 = (case options of None \<Rightarrow> s1 | Some opts \<Rightarrow> extend_effect e opts s1)
      in if (case options of None \<Rightarrow> True | Some opts \<Rightarrow> \<not> opt_lazy opts)
         then bindR (run K e s2) (\<lambda>(v, s3). Inr (e, s3))
         else Inr (e, s2))"

definition stop_runner :: "callbacks \<Rightarrow> eid \<Rightarrow> state \<Rightarrow> state res" where
  "stop_runner K runner s = stop K runner s"

section \<open>baseHandlers.ts\<close>

text \<open>
  Raw targets are plain objects and arrays with own properties only: \<open>Reflect.get\<close> of
  a key the target does not own is \<open>undefined\<close>. An array keeps its length beside its
  index properties; writing an index at or past the length grows it, writing the length
  drops the indices at or past it. Targets are extensible and their properties writable,
  so \<open>Reflect.set\<close> and \<open>Reflect.deleteProperty\<close> answer \<open>true\<close>, except that an array
  length cannot be deleted.
\<close>

definition is_length :: "obj_rec \<Rightarrow> key \<Rightarrow> bool" where
  "is_length ob k \<longleftrightarrow> o_type ob = OArray \<and> k = KStr ''length''"

definition obj_get :: "obj_rec \<Rightarrow> key \<Rightarrow> jsval" where
  "obj_get ob k =
     (if is_length ob k then VNum (int (o_length ob))
      else (case map_of (o_props ob) k of None \<Rightarrow> VUndefined | Some v \<Rightarrow> v))"

definition hasOwn :: "obj_rec \<Rightarrow> key \<Rightarrow> bool" where
  "hasOwn ob k \<longleftrightarrow> is_length ob k \<or> map_of (o_props ob) k \<noteq> None"

definition put_prop :: "key \<Rightarrow> jsval \<Rightarrow> (key \<times> jsval) list \<Rightarrow> (key \<times> jsval) list" where
  "put_prop k v ps =
     (if map_of ps k = None then ps @ [(k, v)]
      else map (\<lambda>(k', v'). if k' = k then (k', v) else (k', v')) ps)"

definition obj_set :: "obj_rec \<Rightarrow> key \<Rightarrow> jsval \<Rightarrow> obj_rec res" where
  "obj_set ob k v =
     (if is_length ob k
      then (case v of
              VNum m \<Rightarrow>
                (if 0 \<le> m
                 then Inr (ob\<lparr>o_length := nat m,
                              o_props := filter (\<lambda>(k', v'). case k' of KIdx i \<Rightarrow> i < nat m | _ \<Rightarrow> True)
                                           (o_props ob)\<rparr>)
                 else Inl RangeError)
            | _ \<Rightarrow> Inl Unmodelled)
      else Inr (ob\<lparr>o_props := put_prop k v (o_props ob),
                   o_length := (case k of
                                  KIdx i \<Rightarrow> (if o_type ob = OArray then max (o_length ob) (Suc i)
                                             else o_length ob)
                                | _ \<Rightarrow> o_length ob)\<rparr>))"

definition obj_delete :: "obj_rec \<Rightarrow> key \<Rightarrow> bool \<times> obj_rec" where
  "obj_delete ob k =
     (if is_length ob k then (False, ob)
      else (True, ob\<lparr>o_props := filter (\<lambda>(k', v'). k' \<noteq> k) (o_props ob)\<rparr>))"

text \<open>
  The symbols \<open>KSym 2\<close> to \<open>KSym 14\<close> stand for the well-known symbols that
  \<open>builtInSymbols\<close> collects.
\<close>

definition builtInSymbols :: "nat \<Rightarrow> bool" where
  "builtInSymbols i \<longleftrightarrow> 2 \<le> i \<and> i \<le> 14"

definition isNonTrackableKeys :: "string \<Rightarrow> bool" where
  "isNonTrackableKeys str \<longleftrightarrow> str \<in> {''__proto__'', ''__v_isRef'', ''__isVue''}"

definition arrayInstrumentations :: "string list" where
  "arrayInstrumentations =
     [''includes'', ''indexOf'', ''lastIndexOf'', ''push'', ''pop'', ''shift'', ''unshift'', ''splice'']"

fun untracked_key :: "key \<Rightarrow> bool" where
  "untracked_key (KSym i) = builtInSymbols i"
| "untracked_key (KStr str) = isNonTrackableKeys str"
| "untracked_key (KIdx i) = False"

text \<open>
  \<open>createGetter\<close>. The flag keys are those of \<open>ReactiveFlags\<close>. An instrumented array
  method is returned as a function value; calling it is not modelled.
\<close>

definition createGetter ::
  "bool \<Rightarrow> bool \<Rightarrow> callbacks \<Rightarrow> addr \<Rightarrow> key \<Rightarrow> jsval \<Rightarrow> state \<Rightarrow> (jsval \<times> state) res" where
  "createGetter isReadonly' shallow K target k receiver s =
     (if k = KStr ''__v_isReactive'' then Inr (VBool (\<not> isReadonly'), s)
      else if k = KStr ''__v_isReadonly'' then Inr (VBool isReadonly', s)
      else if k = KStr ''__v_isShallow'' then Inr (VBool shallow, s)
      else if k = KStr ''__v_raw'' \<and> receiver = VProxy (kind_of isReadonly' shallow) (VObj target)
      then Inr (VObj target, s)
      else
        (let targetIsArray = isArray s target
         in if \<not> isReadonly' \<and> targetIsArray
                \<and> (case k of KStr str \<Rightarrow> str \<in> set arrayInstrumentations | _ \<Rightarrow> False)
            then Inr (VFun (case k of KStr str \<Rightarrow> str | _ \<Rightarrow> []), s)
            else
              (let res = obj_get (objs s target) k
               in if untracked_key k then Inr (res, s)
                  else bindR (if \<not> isReadonly' then track target k s else Inr s) (\<lambda>s1.
                    if shallow then Inr (res, s1)
                    else if isRef res
                    then (if targetIsArray \<and> isIntegerKey k then Inr (res, s1)
                          else value_of K res s1)
                    else if isObject res
                    then Inr (if isReadonly' then readonly res else reactive res, s1)
                    else Inr (res, s1)))))"

text \<open>
  \<open>createSetter\<close>. The trap is called through the proxy of the target, so \<open>receiver\<close>
  is that proxy or an object that inherits from it.
\<close>

definition createSetter ::
  "bool \<Rightarrow> callbacks \<Rightarrow> addr \<Rightarrow> key \<Rightarrow> jsval \<Rightarrow> jsval \<Rightarrow> state \<Rightarrow> (bool \<times> state) res" where
  "createSetter shallow K target k v receiver s =
     (let oldValue0 = obj_get (objs s target) k
      in if isReadonly oldValue0 \<and> isRef oldValue0 \<and> \<not> isRef v then Inr (False, s)
         else
           (let unwrap = (\<not> shallow \<and> \<not> isReadonly v \<and> \<not> isShallow v);
                value = (if unwrap then toRaw v else v);
                oldValue = (if unwrap then toRaw oldValue0 else oldValue0)
            in if \<not> shallow \<and> \<not> isReadonly v \<and> \<not> isArray s target \<and> isRef oldValue \<and> \<not> isRef value
               then bindR (assign_value K oldValue value s) (\<lambda>s1. Inr (True, s1))
               else
                 (let hadKey = (case k of
                                  KIdx i \<Rightarrow> (if isArray s target then i < o_length (objs s target)
                                             else hasOwn (objs s target) k)
                                | _ \<Rightarrow> hasOwn (objs s target) k)
                  in bindR (obj_set (objs s target) k value) (\<lambda>ob.
                       let s1 = s\<lparr>objs := (objs s)(target := ob)\<rparr>
                       in if VObj target = toRaw receiver
                          then (if \<not> hadKey
                                then bindR (trigger K target ADD (Some k) value s1) (\<lambda>s2. Inr (True, s2))
                                else if hasChanged value oldValue
                                then bindR (trigger K target SET (Some k) value s1) (\<lambda>s2. Inr (True, s2))
                                else Inr (True, s1))
                          else Inr (True, s1)))))"

definition deleteProperty :: "callbacks \<Rightarrow> addr \<Rightarrow> key \<Rightarrow> state \<Rightarrow> (bool \<times> state) res" where
  "deleteProperty K target k s =
     (let hadKey = hasOwn (objs s target) k;
          (result, ob) = obj_delete (objs s target) k;
          s1 = s\<lparr>objs := (objs s)(target := ob)\<rparr>
      in if result \<and> hadKey
         then bindR (trigger K target DELETE (Some k) VUndefined s1) (\<lambda>s2. Inr (result, s2))
         else Inr (result, s1))"

text \<open>
  The \<open>set\<close> and \<open>deleteProperty\<close> traps of \<open>readonlyHandlers\<close>. \<open>dev\<close> is the
  build flag \<open>__DEV__\<close>; \<open>warn\<close> appends to the warning sink (the message without
  the quotation marks around the key). \<open>key_string\<close> is \<open>String(key)\<close>; the symbols of
  the model have no description.
\<close>

function decimal :: "nat \<Rightarrow> string" where
  "decimal i = (if i < 10 then [char_of (48 + i)] else decimal (i div 10) @ [char_of (48 + i mod 10)])"
  by pat_completeness auto
termination
  by (relation "measure id") auto

definition key_string :: "key \<Rightarrow> string" where
  "key_string k = (case k of KStr str \<Rightarrow> str | KIdx i \<Rightarrow> decimal i | KSym i \<Rightarrow> ''Symbol()'')"

definition warn :: "string \<Rightarrow> state \<Rightarrow> state" where
  "warn msg s = s\<lparr>warnings := warnings s @ [msg]\<rparr>"

definition readonly_set :: "bool \<Rightarrow> addr \<Rightarrow> key \<Rightarrow> state \<Rightarrow> bool \<times> state" where
  "readonly_set dev target k s =
     (True, if dev
            then warn (''Set operation on key '' @ key_string k @ '' failed: target is readonly.'') s
            else s)"

definition readonly_deleteProperty :: "bool \<Rightarrow> addr \<Rightarrow> key \<Rightarrow> state \<Rightarrow> bool \<times> state" where
  "readonly_deleteProperty dev target k s =
     (True, if dev
            then warn (''Delete operation on key '' @ key_string k @ '' failed: target is readonly.'') s
            else s)"

text \<open>
  The four handler tables: \<open>mutableHandlers\<close>, \<open>readonlyHandlers\<close>,
  \<open>shallowReactiveHandlers\<close> (the mutable ones with the shallow getter and setter) and
  \<open>shallowReadonlyHandlers\<close> (the readonly ones with the shallow readonly getter). The
  \<open>has\<close> and \<open>ownKeys\<close> traps of the mutable tables are left out.
\<close>

fun handler_get ::
  "kind \<Rightarrow> callbacks \<Rightarrow> addr \<Rightarrow> key \<Rightarrow> jsval \<Rightarrow> state \<Rightarrow> (jsval \<times> state) res" where
  "handler_get Reactive = createGetter False False"
| "handler_get ShallowReactive = createGetter False True"
| "handler_get Readonly = createGetter True False"
| "handler_get ShallowReadonly = createGetter True True"

fun handler_set ::
  "kind \<Rightarrow> bool \<Rightarrow> callbacks \<Rightarrow> addr \<Rightarrow> key \<Rightarrow> jsval \<Rightarrow> jsval \<Rightarrow> state \<Rightarrow> (bool \<times> state) res" where
  "handler_set Reactive dev K target k v receiver s = createSetter False K target k v receiver s"
| "handler_set ShallowReactive dev K target k v receiver s = createSetter True K target k v receiver s"
| "handler_set Readonly dev K target k v receiver s = Inr (readonly_set dev target k s)"
| "handler_set ShallowReadonly dev K target k v receiver s = Inr (readonly_set dev target k s)"

fun handler_deleteProperty ::
  "kind \<Rightarrow> bool \<Rightarrow> callbacks \<Rightarrow> addr \<Rightarrow> key \<Rightarrow> state \<Rightarrow> (bool \<times> state) res" where
  "handler_deleteProperty Reactive dev K target k s = deleteProperty K target k s"
| "handler_deleteProperty ShallowReactive dev K target k s = deleteProperty K target k s"
| "handler_deleteProperty Readonly dev K target k s = Inr (readonly_deleteProperty dev target k s)"
| "handler_deleteProperty ShallowReadonly dev K target k s = Inr (readonly_deleteProperty dev target k s)"

section \<open>ref.ts: proxyRefs\<close>

text \<open>
  \<open>new Proxy(objectWithRefs, shallowUnwrapHandlers)\<close> makes a new object at every call;
  \<open>next_proxy\<close> numbers them.
\<close>

definition proxyRefs :: "jsval \<Rightarrow> state \<Rightarrow> jsval \<times> state" where
  "proxyRefs objectWithRefs s =
     (if isReactive objectWithRefs then (objectWithRefs, s)
      else (VUnwrap (next_proxy s) objectWithRefs, s\<lparr>next_proxy := Suc (next_proxy s)\<rparr>))"

text \<open>The traps of \<open>shallowUnwrapHandlers\<close>, for a raw target.\<close>

definition shallowUnwrap_get :: "callbacks \<Rightarrow> addr \<Rightarrow> key \<Rightarrow> state \<Rightarrow> (jsval \<times> state) res" where
  "shallowUnwrap_get K target k s = unref K (obj_get (objs s target) k) s"

definition shallowUnwrap_set :: "callbacks \<Rightarrow> addr \<Rightarrow> key \<Rightarrow> jsval \<Rightarrow> state \<Rightarrow> (bool \<times> state) res" where
  "shallowUnwrap_set K target k v s =
     (let oldValue = obj_get (objs s target) k
      in if isRef oldValue \<and> \<not> isRef v
         then bindR (assign_value K oldValue v s) (\<lambda>s1. Inr (True, s1))
         else bindR (obj_set (objs s target) k v) (\<lambda>ob. Inr (True, s\<lparr>objs := (objs s)(target := ob)\<rparr>)))"

section \<open>Running user functions\<close>

text \<open>
  The meaning of the user syntax: every read and write goes through the entry point of
  the library that the JavaScript expression would reach. A property of a target is read
  and written through the reactive proxy of the target.
\<close>

fun truthy :: "jsval \<Rightarrow> bool" where
  "truthy VUndefined = False"
| "truthy (VNum i) = (i \<noteq> 0)"
| "truthy VNaN = False"
| "truthy (VBool b) = b"
| "truthy (VStr str) = (str \<noteq> [])"
| "truthy v = True"

fun js_times :: "jsval \<Rightarrow> jsval \<Rightarrow> jsval res" where
  "js_times (VNum a) (VNum b) = Inr (VNum (a * b))"
| "js_times VNaN (VNum b) = Inr VNaN"
| "js_times (VNum a) VNaN = Inr VNaN"
| "js_times VNaN VNaN = Inr VNaN"
| "js_times a b = Inl Unmodelled"

fun eval :: "callbacks \<Rightarrow> uexp \<Rightarrow> state \<Rightarrow> (jsval \<times> state) res" where
  "eval K (Lit v) s = Inr (v, s)"
| "eval K (RefValue r) s = ref_get_value r s"
| "eval K (ComputedValue c) s = computed_get_value K c s"
| "eval K (Prop a k) s = handler_get Reactive K a k (VProxy Reactive (VObj a)) s"
| "eval K (Cond c a b) s =
     bindR (eval K c s) (\<lambda>(v, s1). if truthy v then eval K a s1 else eval K b s1)"
| "eval K (Times a b) s =
     bindR (eval K a s) (\<lambda>(x, s1).
       bindR (eval K b s1) (\<lambda>(y, s2).
         bindR (js_times x y) (\<lambda>v. Inr (v, s2))))"

fun exec :: "callbacks \<Rightarrow> ustmt \<Rightarrow> state \<Rightarrow> state res" where
  "exec K (Push x) s = bindR (eval K x s) (\<lambda>(v, s1). Inr (s1\<lparr>ulog := ulog s1 @ [v]\<rparr>))"
| "exec K (SetRef r x) s = bindR (eval K x s) (\<lambda>(v, s1). ref_set_value K r v s1)"
| "exec K (SetProp a k x) s =
     bindR (eval K x s) (\<lambda>(v, s1).
       bindR (handler_set Reactive False K a k v (VProxy Reactive (VObj a)) s1) (\<lambda>(b, s2). Inr s2))"
| "exec K (Effect lazy body ret) s =
     bindR (effect K (body, ret)
              (if lazy
               then Some \<lparr>opt_lazy = True, opt_scheduler = None, opt_allowRecurse = False,
                          opt_onStop = None\<rparr>
               else None) s)
       (\<lambda>(e, s1). Inr s1)"
| "exec K (RunEffect e) s = bindR (run K e s) (\<lambda>(v, s1). Inr s1)"
| "exec K (StopEffect e) s = stop_runner K e s"

fun execs :: "callbacks \<Rightarrow> ustmt list \<Rightarrow> state \<Rightarrow> state res" where
  "execs K [] s = Inr s"
| "execs K (c # cs) s = bindR (exec K c s) (\<lambda>s1. execs K cs s1)"

definition call_prog :: "callbacks \<Rightarrow> prog \<Rightarrow> state \<Rightarrow> (jsval \<times> state) res" where
  "call_prog K p s = bindR (execs K (fst p) s) (\<lambda>s1. eval K (snd p) s1)"

text \<open>
  The callbacks that run the stored user syntax. User code calls the library, which calls
  user code again; \<open>env n\<close> allows \<open>n\<close> levels of that nesting. The default setter of a
  computed made from a getter alone warns in a development build and does nothing
  otherwise; the model takes the production build.
\<close>

fun env :: "nat \<Rightarrow> callbacks" where
  "env 0 =
     \<lparr>call_fn = (\<lambda>e s. Inl OutOfFuel), call_scheduler = (\<lambda>e s. Inl OutOfFuel),
      call_onStop = (\<lambda>e s. Inl OutOfFuel), call_setter = (\<lambda>c v s. Inl OutOfFuel)\<rparr>"
| "env (Suc n) =
     \<lparr>call_fn = (\<lambda>e s. call_prog (env n) (fn (effs s e)) s),
      call_scheduler = (\<lambda>e s.
         case scheduler (effs s e) of
           None \<Rightarrow> Inl TypeError
         | Some (ComputedScheduler c) \<Rightarrow> computed_scheduler (env n) c s
         | Some (UserScheduler p) \<Rightarrow> bindR (call_prog (env n) p s) (\<lambda>(v, s1). Inr s1)),
      call_onStop = (\<lambda>e s.
         case onStop (effs s e) of
           None \<Rightarrow> Inl TypeError
         | Some p \<Rightarrow> bindR (call_prog (env n) p s) (\<lambda>(v, s1). Inr s1)),
      call_setter = (\<lambda>c v s. Inr s)\<rparr>"

text \<open>The state of a freshly loaded module: nothing allocated, no effect running.\<close>

definition init :: state where
  "init =
     \<lparr>effs = (\<lambda>e. \<lparr>active = False, deps = [], parent = None, computed = None,
                    allowRecurse = False, deferStop = False, fn = ([], Lit VUndefined),
                    scheduler = None, onStop = None\<rparr>),
      dps = (\<lambda>d. createDep []),
      refs = (\<lambda>r. \<lparr>r_value = VUndefined, r_rawValue = VUndefined, r_dep = None, r_isShallow = False\<rparr>),
      comps = (\<lambda>c. \<lparr>c_dep = None, c_value = VUndefined, c_effect = 0, c_dirty = True,
                     c_cacheable = True, c_isReadonly = True\<rparr>),
      objs = (\<lambda>a. \<lparr>o_type = OObject, o_props = [], o_length = 0\<rparr>),
      targetMap = (\<lambda>a. None),
      activeEffect = None,
      shouldTrack = True,
      trackStack = [],
      effectTrackDepth = 0,
      trackOpBit = 1,
      next_eff = 0,
      next_dep = 0,
      next_ref = 0,
      next_comp = 0,
      next_proxy = 0,
      trace = [],
      warnings = [],
      ulog = []\<rparr>"

text \<open>The state a call returns, and \<open>init\<close> where it does not return.\<close>

definition state_of :: "state res \<Rightarrow> state" where
  "state_of r = (case r of Inl err \<Rightarrow> init | Inr s \<Rightarrow> s)"

section \<open>User functions that only read\<close>

text \<open>
  Every observed read of the source (\<open>track\<close>, \<open>trackRefValue\<close>) is guarded by
  \<open>shouldTrack && activeEffect\<close> and ends in \<open>trackEffects\<close> on the Dep of the slot it
  reads. \<open>reads ds v\<close> is a user function that reads the slots whose Deps are \<open>ds\<close>, in
  that order, and returns \<open>v\<close>.
\<close>

fun tracks :: "did list \<Rightarrow> state \<Rightarrow> state res" where
  "tracks [] s = Inr s"
| "tracks (d # ds) s =
     bindR (if shouldTrack s \<and> activeEffect s \<noteq> None then trackEffects d s else Inr s)
       (\<lambda>s'. tracks ds s')"

definition reads :: "did list \<Rightarrow> jsval \<Rightarrow> state \<Rightarrow> (jsval \<times> state) res" where
  "reads ds v s = bindR (tracks ds s) (\<lambda>s'. Inr (v, s'))"

text \<open>Two families of callbacks that differ at most in what they do for one effect.\<close>

definition agree_off :: "eid \<Rightarrow> callbacks \<Rightarrow> callbacks \<Rightarrow> bool" where
  "agree_off e K1 K2 \<longleftrightarrow>
     (\<forall>x. x \<noteq> e \<longrightarrow> call_fn K1 x = call_fn K2 x \<and> call_scheduler K1 x = call_scheduler K2 x
        \<and> call_onStop K1 x = call_onStop K2 x)"

text \<open>The marker bit of the running level is bit \<open>k\<close>, one of the 31 value bits.\<close>

definition level :: "state \<Rightarrow> nat \<Rightarrow> bool" where
  "level s k \<longleftrightarrow> k < 31 \<and> trackOpBit s = 2 ^ k"

text \<open>
  Firing in the words of the spec (section 4.1): "Firing means: if the effect has a
  scheduler, call the scheduler; else call \<open>effect.run()\<close>", and "an effect is not
  re-fired if it is itself the currently active effect, unless its \<open>allowRecurse\<close> flag
  is set". \<open>spec_fire_in_order\<close> fires the effects of a list one after the other, in
  the order of the list; each firing starts in the state the one before it returned.
\<close>

definition spec_fire :: "callbacks \<Rightarrow> eid \<Rightarrow> state \<Rightarrow> state res" where
  "spec_fire K e s =
     (if activeEffect s = Some e \<and> \<not> allowRecurse (effs s e) then Inr s
      else (case scheduler (effs s e) of
              Some sch \<Rightarrow> call_scheduler K e (s\<lparr>trace := trace s @ [EvScheduler e]\<rparr>)
            | None \<Rightarrow> bindR (run K e s) (\<lambda>(v, s'). Inr s')))"

fun spec_fire_in_order :: "callbacks \<Rightarrow> eid list \<Rightarrow> state \<Rightarrow> state res" where
  "spec_fire_in_order K [] s = Inr s"
| "spec_fire_in_order K (e # es) s = bindR (spec_fire K e s) (\<lambda>s'. spec_fire_in_order K es s')"

text \<open>
  The order the spec gives: the effects of the list that own a computed in the state
  \<open>s\<close>, then those that do not, each group in the order of the list.
\<close>

definition computed_first :: "state \<Rightarrow> eid list \<Rightarrow> eid list" where
  "computed_first s es =
     filter (\<lambda>e. computed (effs s e) \<noteq> None) es @ filter (\<lambda>e. computed (effs s e) = None) es"

text \<open>
  User code does not assign \<open>effect.computed\<close>; only the constructor of a computed does,
  on the effect it has just made. \<open>computed_kept K X es s\<close> says so of the firings of
  \<open>es\<close> from \<open>s\<close>: each of them that returns leaves \<open>effect.computed\<close> of the effects
  in \<open>X\<close> as it found it.
\<close>

fun computed_kept :: "callbacks \<Rightarrow> eid list \<Rightarrow> eid list \<Rightarrow> state \<Rightarrow> bool" where
  "computed_kept K X [] s = True"
| "computed_kept K X (e # es) s =
     (case spec_fire K e s of
        Inl err \<Rightarrow> True
      | Inr s' \<Rightarrow> list_all (\<lambda>x. computed (effs s' x) = computed (effs s x)) X
                  \<and> computed_kept K X es s')"

text \<open>The effects subscribed to a ref: the members of its Dep, none before the first read.\<close>

definition subscribers :: "state \<Rightarrow> rid \<Rightarrow> eid list" where
  "subscribers s r = (case r_dep (refs s r) of None \<Rightarrow> [] | Some d \<Rightarrow> d_set (dps s d))"

text \<open>The effect occurs in the chain of \<open>parent\<close> links that starts at \<open>p\<close>.\<close>

inductive in_chain :: "(eid \<Rightarrow> effect_rec) \<Rightarrow> eid option \<Rightarrow> eid \<Rightarrow> bool" where
  here: "in_chain es (Some e) e"
| above: "q \<noteq> e \<Longrightarrow> in_chain es (parent (es q)) e \<Longrightarrow> in_chain es (Some q) e"

text \<open>
  The membership invariant: an effect is a member of a Dep exactly when the Dep is in the
  \<open>deps\<close> of the effect.
\<close>

definition bidir :: "state \<Rightarrow> bool" where
  "bidir s \<longleftrightarrow> (\<forall>d e. e \<in> set (d_set (dps s d)) \<longleftrightarrow> d \<in> set (deps (effs s e)))"




section \<open>Concrete inputs\<close>

text \<open>Callbacks under which user code does nothing, and under which \<open>fn\<close> reads Dep 1.\<close>

definition idle_K :: callbacks where
  "idle_K =
     \<lparr>call_fn = (\<lambda>e s. Inr (VUndefined, s)), call_scheduler = (\<lambda>e s. Inr s),
      call_onStop = (\<lambda>e s. Inr s), call_setter = (\<lambda>c v s. Inr s)\<rparr>"

definition reader_K :: callbacks where
  "reader_K =
     \<lparr>call_fn = (\<lambda>e. reads [1] VUndefined), call_scheduler = (\<lambda>e s. Inr s),
      call_onStop = (\<lambda>e s. Inr s), call_setter = (\<lambda>c v s. Inr s)\<rparr>"

text \<open>Effect 0, idle, subscribed to the Deps 0 and 1 by an earlier run.\<close>

definition two_deps :: state where
  "two_deps =
     init\<lparr>effs := (effs init)(0 := (effs init 0)\<lparr>active := True, deps := [0, 1]\<rparr>),
          dps := (dps init)(0 := createDep [0], 1 := createDep [0]),
          next_eff := 1, next_dep := 2\<rparr>"

text \<open>
  Effect 1 is running inside the run of effect 0: it is the active effect and its parent
  is effect 0. In \<open>nested_stopped\<close> effect 0 has been stopped from inside effect 1, so
  its \<open>active\<close> flag is cleared while it is still in the chain.
\<close>

definition nested_running :: state where
  "nested_running =
     init\<lparr>effs := (effs init)
            (0 := (effs init 0)\<lparr>active := True\<rparr>,
             1 := (effs init 1)\<lparr>active := True, parent := Some 0\<rparr>),
          activeEffect := Some 1, effectTrackDepth := 2, trackOpBit := 4, next_eff := 2\<rparr>"

definition nested_stopped :: state where
  "nested_stopped =
     nested_running\<lparr>effs := (effs nested_running)(0 := (effs nested_running 0)\<lparr>active := False\<rparr>)\<rparr>"

text \<open>
  The program that reaches such a state: \<open>r0 = effect(() => { log.push(0); r1() }, {lazy:
  true})\<close>, \<open>r1 = effect(() => { stop(r0); r0() }, {lazy: true})\<close>, then \<open>r0()\<close>.
\<close>

definition reentry_program :: "ustmt list" where
  "reentry_program =
     [Effect True [Push (Lit (VNum 0)), RunEffect 1] (Lit VUndefined),
      Effect True [StopEffect 0, RunEffect 0] (Lit VUndefined),
      RunEffect 0]"

text \<open>\<open>r = ref(1)\<close> in a fresh module; the ref is ref 0.\<close>

definition one_ref :: state where
  "one_ref = snd (ref (VNum 1) init)"

text \<open>
  Scenario 1 of the spec: \<open>effect(() => log.push(r.value)); r.value = 2; r.value = 2;
  r.value = 3\<close>.
\<close>

definition ref_writes_program :: "ustmt list" where
  "ref_writes_program =
     [Effect False [Push (RefValue 0)] (Lit VUndefined),
      SetRef 0 (Lit (VNum 2)), SetRef 0 (Lit (VNum 2)), SetRef 0 (Lit (VNum 3))]"

text \<open>
  Scenario 2 of the spec: \<open>o = reactive({a: 1, b: 2, c: true})\<close>, the target at address
  0; \<open>effect(() => log.push(o.c ? o.a : o.b)); o.c = false; o.a = 10\<close>.
\<close>

definition abc_object :: state where
  "abc_object =
     init\<lparr>objs := (objs init)(0 :=
       \<lparr>o_type = OObject,
        o_props = [(KStr ''a'', VNum 1), (KStr ''b'', VNum 2), (KStr ''c'', VBool True)],
        o_length = 0\<rparr>)\<rparr>"

definition dynamic_deps_program :: "ustmt list" where
  "dynamic_deps_program =
     [Effect False
        [Push (Cond (Prop 0 (KStr ''c'')) (Prop 0 (KStr ''a'')) (Prop 0 (KStr ''b'')))]
        (Lit VUndefined),
      SetProp 0 (KStr ''c'') (Lit (VBool False)),
      SetProp 0 (KStr ''a'') (Lit (VNum 10))]"

text \<open>
  An array \<open>[1]\<close> at address 0 and a user symbol \<open>sym = Symbol()\<close>, here \<open>KSym 20\<close>:
  \<open>effect(() => { log.push(arr[sym]); log.push(arr.length) }); arr.length = 0\<close>, and
  the registry the effect leaves behind.
\<close>

definition one_array :: state where
  "one_array =
     init\<lparr>objs := (objs init)(0 := \<lparr>o_type = OArray, o_props = [(KIdx 0, VNum 1)], o_length = 1\<rparr>)\<rparr>"

definition symbol_length_program :: "ustmt list" where
  "symbol_length_program =
     [Effect False [Push (Prop 0 (KSym 20)), Push (Prop 0 (KStr ''length''))] (Lit VUndefined),
      SetProp 0 (KStr ''length'') (Lit (VNum 0))]"

definition symbol_tracked :: state where
  "symbol_tracked =
     one_array\<lparr>targetMap := (targetMap one_array)(0 := Some [(KSym 20, 0), (KStr ''length'', 1)]),
               effs := (effs one_array)(0 := (effs one_array 0)\<lparr>active := True, deps := [0, 1]\<rparr>),
               dps := (dps one_array)(0 := createDep [0], 1 := createDep [0]),
               next_eff := 1, next_dep := 2\<rparr>"

definition error_of :: "'a res \<Rightarrow> error option" where
  "error_of r = (case r of Inl err \<Rightarrow> Some err | Inr x \<Rightarrow> None)"

text \<open>
  Scenario 5 of the spec: \<open>r1 = ref(a)\<close> and \<open>r2 = ref(b)\<close> are the refs 0 and 1;
  \<open>effect(() => { log.push(r1.value); effect(() => log.push(r2.value)) })\<close>, then
  \<open>r1.value = v1\<close>, then \<open>r2.value = v2\<close>. The outer effect is effect 0, the inner
  effect of its first run is effect 1 and the inner effect of its second run is effect 2.
\<close>

definition two_refs :: "jsval \<Rightarrow> jsval \<Rightarrow> state" where
  "two_refs a b = snd (ref b (snd (ref a init)))"

definition nested_program :: "jsval \<Rightarrow> ustmt list" where
  "nested_program v1 =
     [Effect False
        [Push (RefValue 0), Effect False [Push (RefValue 1)] (Lit VUndefined)]
        (Lit VUndefined),
      SetRef 0 (Lit v1)]"

definition nested_after_r1 :: "jsval \<Rightarrow> jsval \<Rightarrow> jsval \<Rightarrow> state" where
  "nested_after_r1 a b v1 = state_of (execs (env 4) (nested_program v1) (two_refs a b))"

definition nested_after_r2 :: "jsval \<Rightarrow> jsval \<Rightarrow> jsval \<Rightarrow> jsval \<Rightarrow> state" where
  "nested_after_r2 a b v1 v2 =
     state_of (exec (env 4) (SetRef 1 (Lit v2)) (nested_after_r1 a b v1))"

text \<open>Callbacks whose \<open>fn\<close> reads the Deps 1 and 2.\<close>

definition reader2_K :: callbacks where
  "reader2_K =
     \<lparr>call_fn = (\<lambda>e. reads [1, 2] VUndefined), call_scheduler = (\<lambda>e s. Inr s),
      call_onStop = (\<lambda>e s. Inr s), call_setter = (\<lambda>c v s. Inr s)\<rparr>"

text \<open>
  \<open>a = ref(1)\<close> and \<open>c = computed(() => a.value * 2)\<close>: ref 0, computed 0 and its
  effect 0. The getter reads the Dep of \<open>a\<close>, which is Dep 0 once it exists;
  \<open>getter_K\<close> are the callbacks of such a getter.
\<close>

definition with_computed :: state where
  "with_computed = snd (computed_of ([], Times (RefValue 0) (Lit (VNum 2))) False one_ref)"


text \<open>
  Scenarios 3 and 4 of the spec: \<open>a.value = 2; a.value = 3\<close>, then \<open>c.value\<close> is read
  three times.
\<close>

definition lazy_program :: "ustmt list" where
  "lazy_program =
     [SetRef 0 (Lit (VNum 2)), SetRef 0 (Lit (VNum 3)),
      Push (ComputedValue 0), Push (ComputedValue 0), Push (ComputedValue 0)]"

text \<open>
  \<open>flag = ref(true)\<close> and \<open>d = ref(0)\<close> are the refs 0 and 1. The program:
  \<open>X = effect(() => log.push(flag.value ? d.value : -1))\<close>, effect 0;
  \<open>Z = effect(() => stop(Y), {lazy: true})\<close>, effect 1;
  \<open>Y = effect(() => { log.push(d.value); Z() }, {lazy: true})\<close>, effect 2;
  then \<open>Y()\<close>, \<open>flag.value = false\<close> and \<open>d.value = 5\<close>. \<open>stale_after n\<close> is the state
  after its first \<open>n\<close> statements.
\<close>

definition flag_and_d :: state where
  "flag_and_d = snd (ref (VNum 0) (snd (ref (VBool True) init)))"

definition stale_program :: "ustmt list" where
  "stale_program =
     [Effect False [Push (Cond (RefValue 0) (RefValue 1) (Lit (VNum (- 1))))] (Lit VUndefined),
      Effect True [StopEffect 2] (Lit VUndefined),
      Effect True [Push (RefValue 1), RunEffect 1] (Lit VUndefined),
      RunEffect 2,
      SetRef 0 (Lit (VBool False)),
      SetRef 1 (Lit (VNum 5))]"

definition stale_after :: "nat \<Rightarrow> state" where
  "stale_after n = state_of (execs (env 4) (take n stale_program) flag_and_d)"

text \<open>
  \<open>a = ref(1)\<close>, \<open>c1 = computed(() => a.value * 2)\<close> and \<open>c2 = computed(() =>
  a.value * 3)\<close>: ref 0, the computeds 0 and 1 and their effects 0 and 1. Then
  \<open>effect(() => { log.push(a.value); log.push(c1.value); log.push(c2.value) })\<close>, the
  plain effect 2; \<open>observed\<close> is the state after it. The three effects are then the
  members of the Dep of \<open>a\<close>, in the order 2, 0, 1, and the plain effect is the member
  of the Deps of both computeds.
\<close>

definition two_computeds :: state where
  "two_computeds =
     snd (computed_of ([], Times (RefValue 0) (Lit (VNum 3))) False
       (snd (computed_of ([], Times (RefValue 0) (Lit (VNum 2))) False one_ref)))"

definition observer_program :: "ustmt list" where
  "observer_program =
     [Effect False [Push (RefValue 0), Push (ComputedValue 0), Push (ComputedValue 1)]
        (Lit VUndefined)]"

definition observed :: state where
  "observed = state_of (execs (env 4) observer_program two_computeds)"

text \<open>
  \<open>r = ref(1); effect(() => log.push(r.value))\<close>: the state after the effect, effect 0,
  has run once and subscribed to the Dep of the ref, Dep 0.
\<close>

definition watched_ref :: state where
  "watched_ref =
     state_of (exec (env 3) (Effect False [Push (RefValue 0)] (Lit VUndefined)) one_ref)"

section \<open>Evaluation\<close>

text \<open>The defining equations that evaluate a call on a concrete state.\<close>

lemmas ev = bindR_def set_add_def set_delete_def createDep_def wasTracked_def newTracked_def
  set_w_def set_n_def clear_bits_def dep_add_def dep_delete_def set_deps_def initDepMarkers_def
  finalizeDepMarkers_def maxMarkerBits_def shl1_def cleanupEffect_def stop_def run_try_def
  run_finally_def call_logged_def run_def trackEffects_def track_def triggerEffect_def
  triggerEffects_def toReactive_def reactive_def hasChanged_def dep_of_ref_def trackRefValue_def
  triggerRefValue_def RefImpl_def createRef_def ref_def ref_get_value_def ref_store_def
  ref_set_value_def ReactiveEffect_def ComputedRefImpl_def computed_scheduler_def
  computed_get_value_def computed_of_def trigger_deps_def trigger_def extend_effect_def
  effect_def stop_runner_def is_length_def obj_get_def hasOwn_def put_prop_def obj_set_def
  obj_delete_def builtInSymbols_def isNonTrackableKeys_def arrayInstrumentations_def
  createGetter_def createSetter_def isArray_def isMap_def kind_of_def call_prog_def init_def
  state_of_def error_of_def walk_parents.simps Let_def numeral_eq_Suc ITERATE_KEY_def
  MAP_KEY_ITERATE_KEY_def

section \<open>Marker bits and frames\<close>

lemma sint_level: "k < 31 \<Longrightarrow> sint (2 ^ k :: 32 word) = 2 ^ k"
  apply (rule bit_eqI)
  apply (auto simp: bit_sint_iff bit_simps)
  done

lemma and_bit_cases: "(x :: 32 word) AND 2 ^ k = (if bit x k then 2 ^ k else 0)"
  apply (rule bit_word_eqI)
  apply (auto simp: bit_simps)
  done

lemma tracked_bit: "k < 31 \<Longrightarrow> (0 < sint ((x :: 32 word) AND 2 ^ k)) = bit x k"
  by (simp add: and_bit_cases sint_level)

lemma shl1_level: "0 \<le> k \<Longrightarrow> k \<le> 30 \<Longrightarrow> shl1 k = 2 ^ nat k"
  by (simp add: shl1_def)

lemma wasTracked_bit: "level s k \<Longrightarrow> wasTracked s d = bit (d_w (dps s d)) k"
  by (simp add: level_def wasTracked_def tracked_bit)

lemma newTracked_bit: "level s k \<Longrightarrow> newTracked s d = bit (d_n (dps s d)) k"
  by (simp add: level_def newTracked_def tracked_bit)

lemma trackEffects_total:
  "activeEffect s \<noteq> None \<Longrightarrow> \<exists>s'. trackEffects d s = Inr s'"
  by (auto simp: trackEffects_def Let_def set_n_def split: option.splits prod.splits if_splits)

lemma trackEffects_frame:
  assumes "trackEffects d s = Inr s'"
  shows "effectTrackDepth s' = effectTrackDepth s" "trackOpBit s' = trackOpBit s"
    "activeEffect s' = activeEffect s" "shouldTrack s' = shouldTrack s"
    "x \<noteq> d \<Longrightarrow> dps s' x = dps s x"
    "set (deps (effs s y)) \<subseteq> set (deps (effs s' y))"
    "deferStop (effs s' y) = deferStop (effs s y)"
    "active (effs s' y) = active (effs s y)"
  using assms
  by (auto simp: trackEffects_def Let_def set_n_def set_deps_def dep_add_def
      split: option.splits prod.splits if_splits)

lemma tracks_total: "\<exists>s'. tracks ds s = Inr s'"
proof (induction ds arbitrary: s)
  case Nil
  show ?case by simp
next
  case (Cons d ds)
  show ?case
  proof (cases "shouldTrack s \<and> activeEffect s \<noteq> None")
    case True
    then obtain s1 where "trackEffects d s = Inr s1"
      using trackEffects_total by blast
    with True Cons[of s1] show ?thesis by (simp add: bindR_def)
  next
    case False
    with Cons[of s] show ?thesis by (auto simp add: bindR_def)
  qed
qed

lemma tracks_frame:
  assumes "tracks ds s = Inr s'"
  shows "effectTrackDepth s' = effectTrackDepth s \<and> trackOpBit s' = trackOpBit s
    \<and> activeEffect s' = activeEffect s \<and> shouldTrack s' = shouldTrack s
    \<and> (\<forall>x. x \<notin> set ds \<longrightarrow> dps s' x = dps s x)
    \<and> (\<forall>y. set (deps (effs s y)) \<subseteq> set (deps (effs s' y)))
    \<and> (\<forall>y. deferStop (effs s' y) = deferStop (effs s y))
    \<and> (\<forall>y. active (effs s' y) = active (effs s y))"
  using assms
proof (induction ds arbitrary: s)
  case Nil
  then show ?case by simp
next
  case (Cons d ds)
  show ?case
  proof (cases "shouldTrack s \<and> activeEffect s \<noteq> None")
    case True
    then obtain s1 where s1: "trackEffects d s = Inr s1"
      using trackEffects_total by blast
    with True Cons.prems have "tracks ds s1 = Inr s'" by (simp add: bindR_def)
    from Cons.IH[OF this] trackEffects_frame[OF s1] show ?thesis
      by (simp; blast)
  next
    case False
    with Cons.prems have "tracks ds s = Inr s'" by (auto simp add: bindR_def)
    from Cons.IH[OF this] show ?thesis by simp
  qed
qed

lemma fold_set_w_frame:
  "effs (fold set_w ds s) = effs s \<and> trackOpBit (fold set_w ds s) = trackOpBit s
   \<and> effectTrackDepth (fold set_w ds s) = effectTrackDepth s
   \<and> activeEffect (fold set_w ds s) = activeEffect s
   \<and> shouldTrack (fold set_w ds s) = shouldTrack s
   \<and> d_n (dps (fold set_w ds s) x) = d_n (dps s x)
   \<and> d_set (dps (fold set_w ds s) x) = d_set (dps s x)"
  by (induction ds arbitrary: s) (simp_all add: set_w_def)

lemma fold_set_w_bit:
  "level s k \<Longrightarrow> bit (d_w (dps (fold set_w ds s) x)) k = (x \<in> set ds \<or> bit (d_w (dps s x)) k)"
proof (induction ds arbitrary: s)
  case Nil
  show ?case by simp
next
  case (Cons d ds)
  have l: "level (set_w d s) k" using Cons.prems by (simp add: set_w_def level_def)
  have "bit (d_w (dps (set_w d s) x)) k = (x = d \<or> bit (d_w (dps s x)) k)"
    using Cons.prems by (auto simp: set_w_def level_def bit_simps)
  with Cons.IH[OF l] show ?case by auto
qed

lemma finalize_loop_frame:
  "finalize_loop e ds s = (kept, s') \<Longrightarrow>
     effs s' = effs s \<and> trackOpBit s' = trackOpBit s \<and> effectTrackDepth s' = effectTrackDepth s
     \<and> activeEffect s' = activeEffect s \<and> shouldTrack s' = shouldTrack s \<and> trace s' = trace s
     \<and> set (d_set (dps s' x)) \<subseteq> set (d_set (dps s x))
     \<and> (x \<notin> set ds \<longrightarrow> dps s' x = dps s x)"
proof (induction ds arbitrary: s kept)
  case Nil
  then show ?case by simp
next
  case (Cons d ds)
  show ?case
  proof (cases "wasTracked s d \<and> \<not> newTracked s d")
    case True
    with Cons.prems have "finalize_loop e ds (clear_bits d (dep_delete d e s)) = (kept, s')"
      by simp
    from Cons.IH[OF this] show ?thesis
      by (auto simp: clear_bits_def dep_delete_def set_delete_def split: if_splits)
  next
    case False
    with Cons.prems obtain k' where "finalize_loop e ds (clear_bits d s) = (k', s')"
      by (auto split: prod.splits)
    from Cons.IH[OF this] show ?thesis
      by (auto simp: clear_bits_def split: if_splits)
  qed
qed

lemma finalize_loop_removes:
  assumes "level s k" "d \<in> set ds" "bit (d_w (dps s d)) k" "\<not> bit (d_n (dps s d)) k"
    and "finalize_loop e ds s = (kept, s')"
  shows "e \<notin> set (d_set (dps s' d))"
  using assms
proof (induction ds arbitrary: s kept)
  case Nil
  then show ?case by simp
next
  case (Cons x ds)
  show ?case
  proof (cases "x = d")
    case True
    with Cons.prems have "wasTracked s x \<and> \<not> newTracked s x"
      by (simp add: wasTracked_bit newTracked_bit)
    with Cons.prems have "finalize_loop e ds (clear_bits x (dep_delete x e s)) = (kept, s')"
      by simp
    from finalize_loop_frame[OF this, of d] True show ?thesis
      by (auto simp: clear_bits_def dep_delete_def set_delete_def)
  next
    case False
    with Cons.prems have din: "d \<in> set ds" by simp
    show ?thesis
    proof (cases "wasTracked s x \<and> \<not> newTracked s x")
      case True
      with Cons.prems have fl: "finalize_loop e ds (clear_bits x (dep_delete x e s)) = (kept, s')"
        by simp
      have "level (clear_bits x (dep_delete x e s)) k"
        using Cons.prems(1) by (simp add: level_def clear_bits_def dep_delete_def)
      from Cons.IH[OF this din _ _ fl] False Cons.prems(3,4) show ?thesis
        by (simp add: clear_bits_def dep_delete_def)
    next
      case F2: False
      with Cons.prems obtain k' where fl: "finalize_loop e ds (clear_bits x s) = (k', s')"
        by (auto split: prod.splits)
      have "level (clear_bits x s) k"
        using Cons.prems(1) by (simp add: level_def clear_bits_def)
      from Cons.IH[OF this din _ _ fl] False Cons.prems(3,4) show ?thesis
        by (simp add: clear_bits_def)
    qed
  qed
qed

lemma fold_dep_delete_frame:
  "effs (fold (\<lambda>d t. dep_delete d e t) ds s) = effs s
   \<and> effectTrackDepth (fold (\<lambda>d t. dep_delete d e t) ds s) = effectTrackDepth s
   \<and> trackOpBit (fold (\<lambda>d t. dep_delete d e t) ds s) = trackOpBit s
   \<and> activeEffect (fold (\<lambda>d t. dep_delete d e t) ds s) = activeEffect s
   \<and> shouldTrack (fold (\<lambda>d t. dep_delete d e t) ds s) = shouldTrack s
   \<and> (x \<notin> set ds \<longrightarrow> dps (fold (\<lambda>d t. dep_delete d e t) ds s) x = dps s x)
   \<and> (x \<in> set ds \<longrightarrow> e \<notin> set (d_set (dps (fold (\<lambda>d t. dep_delete d e t) ds s) x)))
   \<and> set (d_set (dps (fold (\<lambda>d t. dep_delete d e t) ds s) x)) \<subseteq> set (d_set (dps s x))"
proof (induction ds arbitrary: s)
  case Nil
  show ?case by simp
next
  case (Cons d ds)
  from Cons[of "dep_delete d e s"] show ?case
    by (auto simp: dep_delete_def set_delete_def split: if_splits)
qed


lemma bindR_cong: "(\<And>x. f x = g x) \<Longrightarrow> bindR m f = bindR m g"
  by (cases m) (simp_all add: bindR_def)

lemma stop_agree:
  "call_onStop K1 x = call_onStop K2 x \<Longrightarrow> stop K1 x s = stop K2 x s"
  by (simp add: stop_def Let_def)

lemma run_agree:
  assumes a: "call_fn K1 x = call_fn K2 x" and b: "call_onStop K1 x = call_onStop K2 x"
  shows "run K1 x s = run K2 x s"
proof -
  have st: "stop K1 x = stop K2 x" by (rule ext) (simp add: stop_agree[OF b])
  have cl: "call_logged K1 x = call_logged K2 x" by (rule ext) (simp add: call_logged_def a)
  show ?thesis unfolding run_def cl st by (rule refl)
qed

lemma triggerEffect_agree:
  "agree_off e K1 K2 \<Longrightarrow> x \<noteq> e \<Longrightarrow> triggerEffect K1 x s = triggerEffect K2 x s"
  by (simp add: triggerEffect_def agree_off_def run_agree[of K1 x K2])

lemma trigger_loop_agree:
  "agree_off e K1 K2 \<Longrightarrow> e \<notin> set es \<Longrightarrow> trigger_loop K1 want es s = trigger_loop K2 want es s"
proof (induction es arbitrary: s)
  case Nil
  show ?case by simp
next
  case (Cons x es)
  then have "\<And>t. trigger_loop K1 want es t = trigger_loop K2 want es t" by simp
  then have "bindR m (trigger_loop K1 want es) = bindR m (trigger_loop K2 want es)" for m
    by (rule bindR_cong)
  with Cons.prems show ?case by (simp add: triggerEffect_agree[of e K1 K2])
qed

lemma triggerEffects_agree:
  assumes "agree_off e K1 K2" "e \<notin> set es"
  shows "triggerEffects K1 es s = triggerEffects K2 es s"
proof -
  have "trigger_loop K1 want es = trigger_loop K2 want es" for want
    by (rule ext) (rule trigger_loop_agree[OF assms])
  then show ?thesis by (simp add: triggerEffects_def)
qed

lemma run_try_frame:
  "\<not> deferStop (effs s e) \<Longrightarrow> \<not> deferStop (effs (run_try e s) e)"
  "effectTrackDepth (run_try e s) = effectTrackDepth s + 1"
  "trackOpBit (run_try e s) = shl1 (effectTrackDepth s + 1)"
  by (simp_all add: run_try_def Let_def initDepMarkers_def cleanupEffect_def set_deps_def
      fold_set_w_frame fold_dep_delete_frame)

lemma run_try_marker:
  assumes "0 \<le> effectTrackDepth s" "effectTrackDepth s < maxMarkerBits"
    and "k = nat (effectTrackDepth s + 1)"
  shows "level (run_try e s) k"
    "bit (d_w (dps (run_try e s) d)) k = (d \<in> set (deps (effs s e)) \<or> bit (d_w (dps s d)) k)"
    "d_n (dps (run_try e s) d) = d_n (dps s d)"
    "deps (effs (run_try e s) e) = deps (effs s e)"
proof -
  define s1 where "s1 = s\<lparr>effs := (effs s)(e := (effs s e)\<lparr>parent := activeEffect s\<rparr>),
                 activeEffect := Some e,
                 shouldTrack := True,
                 effectTrackDepth := effectTrackDepth s + 1,
                 trackOpBit := shl1 (effectTrackDepth s + 1)\<rparr>"
  have rt: "run_try e s = fold set_w (deps (effs s e)) s1"
    using assms by (simp add: run_try_def Let_def s1_def initDepMarkers_def)
  have lv1: "level s1 k"
    using assms by (simp add: level_def maxMarkerBits_def shl1_level s1_def)
  show "level (run_try e s) k"
    using lv1 fold_set_w_frame[of "deps (effs s e)" s1] by (simp add: rt level_def)
  show "bit (d_w (dps (run_try e s) d)) k = (d \<in> set (deps (effs s e)) \<or> bit (d_w (dps s d)) k)"
    using fold_set_w_bit[OF lv1, of "deps (effs s e)" d] by (simp add: rt) (simp add: s1_def)
  show "d_n (dps (run_try e s) d) = d_n (dps s d)"
    using fold_set_w_frame[of "deps (effs s e)" s1 d] by (simp add: rt) (simp add: s1_def)
  show "deps (effs (run_try e s) e) = deps (effs s e)"
    using fold_set_w_frame[of "deps (effs s e)" s1 d] by (simp add: rt) (simp add: s1_def)
qed

lemma run_try_cleanup:
  assumes "\<not> effectTrackDepth s < maxMarkerBits" "d \<in> set (deps (effs s e))"
  shows "e \<notin> set (d_set (dps (run_try e s) d))"
proof -
  define s1 where "s1 = s\<lparr>effs := (effs s)(e := (effs s e)\<lparr>parent := activeEffect s\<rparr>),
                 activeEffect := Some e,
                 shouldTrack := True,
                 effectTrackDepth := effectTrackDepth s + 1,
                 trackOpBit := shl1 (effectTrackDepth s + 1)\<rparr>"
  have rt: "run_try e s = set_deps e [] (fold (\<lambda>d t. dep_delete d e t) (deps (effs s e)) s1)"
    using assms by (auto simp add: run_try_def Let_def s1_def cleanupEffect_def)
  have "deps (effs s1 e) = deps (effs s e)" by (simp add: s1_def)
  then show ?thesis
    using fold_dep_delete_frame[of e "deps (effs s e)" s1 d] assms
    by (simp add: rt set_deps_def)
qed

lemma run_finally_frame:
  "dps (run_finally e l s) = dps (if effectTrackDepth s \<le> maxMarkerBits then finalizeDepMarkers e s else s)"
  "deferStop (effs (run_finally e l s) e) = deferStop (effs s e)"
proof -
  show "dps (run_finally e l s) = dps (if effectTrackDepth s \<le> maxMarkerBits then finalizeDepMarkers e s else s)"
    by (simp add: run_finally_def Let_def)
  obtain kept t where fl: "finalize_loop e (deps (effs s e)) s = (kept, t)"
    by (cases "finalize_loop e (deps (effs s e)) s")
  from finalize_loop_frame[OF fl, of 0]
  show "deferStop (effs (run_finally e l s) e) = deferStop (effs s e)"
    by (simp add: run_finally_def Let_def finalizeDepMarkers_def fl set_deps_def)
qed

lemma finalize_removes:
  assumes "level s k" "d \<in> set (deps (effs s e))" "bit (d_w (dps s d)) k" "\<not> bit (d_n (dps s d)) k"
  shows "e \<notin> set (d_set (dps (finalizeDepMarkers e s) d))"
proof -
  obtain kept t where fl: "finalize_loop e (deps (effs s e)) s = (kept, t)"
    by (cases "finalize_loop e (deps (effs s e)) s")
  from finalize_loop_removes[OF assms fl] assms(2) show ?thesis
    by (auto simp add: finalizeDepMarkers_def fl set_deps_def)
qed

section \<open>What the primitive updates change\<close>

lemma set_w_proj:
  "activeEffect (set_w d s) = activeEffect s"
  "shouldTrack (set_w d s) = shouldTrack s"
  "effectTrackDepth (set_w d s) = effectTrackDepth s"
  "trackOpBit (set_w d s) = trackOpBit s"
  "trace (set_w d s) = trace s"
  "refs (set_w d s) = refs s"
  "comps (set_w d s) = comps s"
  "objs (set_w d s) = objs s"
  "targetMap (set_w d s) = targetMap s"
  "ulog (set_w d s) = ulog s"
  "effs (set_w d s) = effs s"
  "d_w (dps (set_w d s) x) = (if x = d then d_w (dps s d) OR trackOpBit s else d_w (dps s x))"
  "d_n (dps (set_w d s) x) = d_n (dps s x)"
  "d_set (dps (set_w d s) x) = d_set (dps s x)"
  by (simp_all add: set_w_def)

lemma set_n_proj:
  "activeEffect (set_n d s) = activeEffect s"
  "shouldTrack (set_n d s) = shouldTrack s"
  "effectTrackDepth (set_n d s) = effectTrackDepth s"
  "trackOpBit (set_n d s) = trackOpBit s"
  "trace (set_n d s) = trace s"
  "refs (set_n d s) = refs s"
  "comps (set_n d s) = comps s"
  "objs (set_n d s) = objs s"
  "targetMap (set_n d s) = targetMap s"
  "ulog (set_n d s) = ulog s"
  "effs (set_n d s) = effs s"
  "d_n (dps (set_n d s) x) = (if x = d then d_n (dps s d) OR trackOpBit s else d_n (dps s x))"
  "d_w (dps (set_n d s) x) = d_w (dps s x)"
  "d_set (dps (set_n d s) x) = d_set (dps s x)"
  by (simp_all add: set_n_def)

lemma clear_bits_proj:
  "activeEffect (clear_bits d s) = activeEffect s"
  "shouldTrack (clear_bits d s) = shouldTrack s"
  "effectTrackDepth (clear_bits d s) = effectTrackDepth s"
  "trackOpBit (clear_bits d s) = trackOpBit s"
  "trace (clear_bits d s) = trace s"
  "refs (clear_bits d s) = refs s"
  "comps (clear_bits d s) = comps s"
  "objs (clear_bits d s) = objs s"
  "targetMap (clear_bits d s) = targetMap s"
  "ulog (clear_bits d s) = ulog s"
  "effs (clear_bits d s) = effs s"
  "d_w (dps (clear_bits d s) x) = (if x = d then d_w (dps s d) AND NOT (trackOpBit s) else d_w (dps s x))"
  "d_n (dps (clear_bits d s) x) = (if x = d then d_n (dps s d) AND NOT (trackOpBit s) else d_n (dps s x))"
  "d_set (dps (clear_bits d s) x) = d_set (dps s x)"
  by (simp_all add: clear_bits_def)

lemma dep_add_proj:
  "activeEffect (dep_add d e s) = activeEffect s"
  "shouldTrack (dep_add d e s) = shouldTrack s"
  "effectTrackDepth (dep_add d e s) = effectTrackDepth s"
  "trackOpBit (dep_add d e s) = trackOpBit s"
  "trace (dep_add d e s) = trace s"
  "refs (dep_add d e s) = refs s"
  "comps (dep_add d e s) = comps s"
  "objs (dep_add d e s) = objs s"
  "targetMap (dep_add d e s) = targetMap s"
  "ulog (dep_add d e s) = ulog s"
  "effs (dep_add d e s) = effs s"
  "d_set (dps (dep_add d e s) x) = (if x = d then set_add e (d_set (dps s d)) else d_set (dps s x))"
  "d_w (dps (dep_add d e s) x) = d_w (dps s x)"
  "d_n (dps (dep_add d e s) x) = d_n (dps s x)"
  by (simp_all add: dep_add_def)

lemma dep_delete_proj:
  "activeEffect (dep_delete d e s) = activeEffect s"
  "shouldTrack (dep_delete d e s) = shouldTrack s"
  "effectTrackDepth (dep_delete d e s) = effectTrackDepth s"
  "trackOpBit (dep_delete d e s) = trackOpBit s"
  "trace (dep_delete d e s) = trace s"
  "refs (dep_delete d e s) = refs s"
  "comps (dep_delete d e s) = comps s"
  "objs (dep_delete d e s) = objs s"
  "targetMap (dep_delete d e s) = targetMap s"
  "ulog (dep_delete d e s) = ulog s"
  "effs (dep_delete d e s) = effs s"
  "d_set (dps (dep_delete d e s) x) = (if x = d then removeAll e (d_set (dps s d)) else d_set (dps s x))"
  "d_w (dps (dep_delete d e s) x) = d_w (dps s x)"
  "d_n (dps (dep_delete d e s) x) = d_n (dps s x)"
  by (simp_all add: dep_delete_def set_delete_def)

lemma set_deps_proj:
  "activeEffect (set_deps e ds s) = activeEffect s"
  "shouldTrack (set_deps e ds s) = shouldTrack s"
  "effectTrackDepth (set_deps e ds s) = effectTrackDepth s"
  "trackOpBit (set_deps e ds s) = trackOpBit s"
  "trace (set_deps e ds s) = trace s"
  "refs (set_deps e ds s) = refs s"
  "comps (set_deps e ds s) = comps s"
  "objs (set_deps e ds s) = objs s"
  "targetMap (set_deps e ds s) = targetMap s"
  "ulog (set_deps e ds s) = ulog s"
  "dps (set_deps e ds s) = dps s"
  "deps (effs (set_deps e ds s) x) = (if x = e then ds else deps (effs s x))"
  "active (effs (set_deps e ds s) x) = active (effs s x)"
  "parent (effs (set_deps e ds s) x) = parent (effs s x)"
  "computed (effs (set_deps e ds s) x) = computed (effs s x)"
  "allowRecurse (effs (set_deps e ds s) x) = allowRecurse (effs s x)"
  "deferStop (effs (set_deps e ds s) x) = deferStop (effs s x)"
  "fn (effs (set_deps e ds s) x) = fn (effs s x)"
  "scheduler (effs (set_deps e ds s) x) = scheduler (effs s x)"
  "onStop (effs (set_deps e ds s) x) = onStop (effs s x)"
  by (simp_all add: set_deps_def)

lemmas proj = set_w_proj set_n_proj clear_bits_proj dep_add_proj dep_delete_proj set_deps_proj

lemma set_set_add: "set (set_add x xs) = insert x (set xs)"
  by (auto simp: set_add_def)

section \<open>Firing in order\<close>

lemma triggerEffect_spec_fire: "triggerEffect K e s = spec_fire K e s"
  by (auto simp: triggerEffect_def spec_fire_def split: option.splits)

lemma spec_fire_in_order_append:
  "spec_fire_in_order K (xs @ ys) s = bindR (spec_fire_in_order K xs s) (\<lambda>s'. spec_fire_in_order K ys s')"
proof (induction xs arbitrary: s)
  case Nil
  show ?case by (simp add: bindR_def)
next
  case (Cons x xs)
  show ?case by (cases "spec_fire K x s") (simp_all add: bindR_def Cons)
qed

lemma computed_kept_append:
  "computed_kept K X (xs @ ys) s \<longleftrightarrow>
     computed_kept K X xs s \<and> (\<forall>t. spec_fire_in_order K xs s = Inr t \<longrightarrow> computed_kept K X ys t)"
proof (induction xs arbitrary: s)
  case Nil
  show ?case by simp
next
  case (Cons x xs)
  show ?case by (cases "spec_fire K x s") (auto simp: bindR_def Cons)
qed

lemma computed_kept_result:
  assumes "computed_kept K X xs s" "spec_fire_in_order K xs s = Inr t" "x \<in> set X"
  shows "computed (effs t x) = computed (effs s x)"
  using assms(1,2)
proof (induction xs arbitrary: s)
  case Nil
  then show ?case by simp
next
  case (Cons e es)
  from Cons.prems(2) obtain s1 where s1: "spec_fire K e s = Inr s1"
    and r: "spec_fire_in_order K es s1 = Inr t"
    by (auto simp: bindR_def split: sum.splits)
  from Cons.prems(1) s1 have k: "computed_kept K X es s1"
    and c: "computed (effs s1 x) = computed (effs s x)"
    using assms(3) by (auto simp: list_all_iff)
  from Cons.IH[OF k r] c show ?case by simp
qed

lemma trigger_loop_in_order:
  assumes "set es \<subseteq> set X"
    and "computed_kept K X (filter (\<lambda>e. (computed (effs s e) \<noteq> None) = want) es) s"
  shows "trigger_loop K want es s
     = spec_fire_in_order K (filter (\<lambda>e. (computed (effs s e) \<noteq> None) = want) es) s"
  using assms
proof (induction es arbitrary: s)
  case Nil
  show ?case by simp
next
  case (Cons e es)
  have sub: "set es \<subseteq> set X" using Cons.prems(1) by simp
  show ?case
  proof (cases "(computed (effs s e) \<noteq> None) = want")
    case False
    with Cons.prems(2) have "computed_kept K X (filter (\<lambda>e. (computed (effs s e) \<noteq> None) = want) es) s"
      by simp
    from Cons.IH[OF sub this] False show ?thesis by (simp add: bindR_def)
  next
    case True
    show ?thesis
    proof (cases "spec_fire K e s")
      case (Inl err)
      with True show ?thesis by (simp add: bindR_def triggerEffect_spec_fire)
    next
      case (Inr s')
      from Cons.prems(2) True Inr
      have same: "\<forall>x\<in>set X. computed (effs s' x) = computed (effs s x)"
        and k: "computed_kept K X (filter (\<lambda>e. (computed (effs s e) \<noteq> None) = want) es) s'"
        by (simp_all add: list_all_iff)
      from same sub have f: "filter (\<lambda>e. (computed (effs s' e) \<noteq> None) = want) es
          = filter (\<lambda>e. (computed (effs s e) \<noteq> None) = want) es"
        by (intro filter_cong) auto
      from k f have "computed_kept K X (filter (\<lambda>e. (computed (effs s' e) \<noteq> None) = want) es) s'"
        by simp
      from Cons.IH[OF sub this] f True Inr show ?thesis
        by (simp add: bindR_def triggerEffect_spec_fire)
    qed
  qed
qed

lemma triggerEffects_in_order:
  assumes "computed_kept K es (computed_first s es) s"
  shows "triggerEffects K es s = spec_fire_in_order K (computed_first s es) s"
proof -
  let ?cs = "filter (\<lambda>e. computed (effs s e) \<noteq> None) es"
  let ?ps = "filter (\<lambda>e. computed (effs s e) = None) es"
  from assms have kc: "computed_kept K es ?cs s"
    and kp: "\<forall>t. spec_fire_in_order K ?cs s = Inr t \<longrightarrow> computed_kept K es ?ps t"
    by (simp_all add: computed_first_def computed_kept_append)
  have a: "trigger_loop K True es s = spec_fire_in_order K ?cs s"
    using trigger_loop_in_order[OF subset_refl, of K es s True] kc by simp
  show ?thesis
  proof (cases "spec_fire_in_order K ?cs s")
    case (Inl err)
    then show ?thesis
      by (simp add: triggerEffects_def a computed_first_def spec_fire_in_order_append bindR_def)
  next
    case (Inr t)
    have same: "\<forall>x\<in>set es. computed (effs t x) = computed (effs s x)"
      using computed_kept_result[OF kc Inr] by blast
    then have f: "filter (\<lambda>e. (computed (effs t e) \<noteq> None) = False) es = ?ps"
      by (intro filter_cong) auto
    from kp Inr have "computed_kept K es ?ps t" by blast
    with f have "computed_kept K es (filter (\<lambda>e. (computed (effs t e) \<noteq> None) = False) es) t"
      by simp
    from trigger_loop_in_order[OF subset_refl this] f
    have b: "trigger_loop K False es t = spec_fire_in_order K ?ps t" by simp
    from Inr show ?thesis
      by (simp add: triggerEffects_def a b computed_first_def spec_fire_in_order_append bindR_def)
  qed
qed

section \<open>Incremental re-tracking\<close>

lemma run_reads_unread:
  assumes fn: "call_fn K e = reads rs v"
    and act: "active (effs s e)" and nd: "\<not> deferStop (effs s e)"
    and chain: "walk_parents (effs s) (activeEffect s) e = Some False"
    and depth: "0 \<le> effectTrackDepth s"
    and clean: "effectTrackDepth s < maxMarkerBits \<longrightarrow>
                  \<not> bit (d_n (dps s d)) (nat (effectTrackDepth s + 1))"
    and old: "d \<in> set (deps (effs s e))" and unread: "d \<notin> set rs"
  shows "\<exists>s'. run K e s = Inr (v, s') \<and> e \<notin> set (d_set (dps s' d))"
proof -
  define s2 where "s2 = (run_try e s)\<lparr>trace := trace (run_try e s) @ [EvFn e]\<rparr>"
  obtain s3 where s3: "tracks rs s2 = Inr s3" using tracks_total by blast
  note fr = tracks_frame[OF s3]
  define s5 where "s5 = run_finally e (shouldTrack s) s3"
  have dps3: "dps s3 d = dps (run_try e s) d" using fr unread by (simp add: s2_def)
  have dep3: "effectTrackDepth s3 = effectTrackDepth s + 1"
    using fr by (simp add: s2_def run_try_frame)
  have ds3: "\<not> deferStop (effs s3 e)" using fr run_try_frame(1)[OF nd] by (simp add: s2_def)
  then have ds5: "\<not> deferStop (effs s5 e)" by (simp add: s5_def run_finally_frame)
  have key: "e \<notin> set (d_set (dps s5 d))"
  proof (cases "effectTrackDepth s < maxMarkerBits")
    case True
    define k where "k = nat (effectTrackDepth s + 1)"
    note m = run_try_marker[OF depth True k_def, of e]
    have lv3: "level s3 k" using fr m(1) by (simp add: level_def s2_def)
    have "set (deps (effs s2 e)) \<subseteq> set (deps (effs s3 e))" using fr by blast
    then have in3: "d \<in> set (deps (effs s3 e))" using old m(4) by (auto simp: s2_def)
    have "bit (d_w (dps s3 d)) k" "\<not> bit (d_n (dps s3 d)) k"
      using m(2,3)[of d] old clean True by (simp_all add: dps3 k_def)
    from finalize_removes[OF lv3 in3 this] True show ?thesis
      by (simp add: s5_def run_finally_frame dep3 maxMarkerBits_def)
  next
    case False
    from run_try_cleanup[OF False old] False show ?thesis
      by (simp add: s5_def run_finally_frame dep3 maxMarkerBits_def dps3)
  qed
  have "call_logged K e (run_try e s) = Inr (v, s3)"
    by (simp add: call_logged_def fn reads_def s3[unfolded s2_def] bindR_def)
  then have "run K e s = Inr (v, s5)"
    using act chain ds5 by (simp add: run_def bindR_def Let_def s5_def)
  with key show ?thesis by blast
qed

text \<open>
  Where the marker is clean the reconciliation does what it is meant to do. Let the
  effect \<open>e\<close> be active and not running, and let its \<open>fn\<close> read the Deps \<open>rs\<close>. Let
  \<open>d\<close> be a Dep that \<open>e\<close> subscribed to in its previous pass (it is in \<open>e.deps\<close>) and
  that this pass does not read, its newTracked bit for the level of the run clear. Then
  \<open>run\<close> returns, and in the state it returns \<open>e\<close> is no longer a member of \<open>d\<close>; so
  triggering \<open>d\<close> afterwards does not depend on what \<open>e\<close> would do: it calls neither
  \<open>e.run\<close> nor the scheduler of \<open>e\<close>. This holds both with the marker bits (depth up
  to 30) and in full-cleanup mode.
\<close>

lemma run_drops_unread_dep:
  assumes "call_fn K e = reads rs v"
    and "active (effs s e)" and "\<not> deferStop (effs s e)"
    and "walk_parents (effs s) (activeEffect s) e = Some False"
    and "0 \<le> effectTrackDepth s"
    and "effectTrackDepth s < maxMarkerBits \<longrightarrow>
           \<not> bit (d_n (dps s d)) (nat (effectTrackDepth s + 1))"
    and "d \<in> set (deps (effs s e))" and "d \<notin> set rs"
  shows "\<exists>s'. run K e s = Inr (v, s') \<and> e \<notin> set (d_set (dps s' d))
           \<and> (\<forall>K1 K2. agree_off e K1 K2 \<longrightarrow>
                 triggerEffects K1 (d_set (dps s' d)) s' = triggerEffects K2 (d_set (dps s' d)) s')"
proof -
  from run_reads_unread[OF assms] obtain s' where
    r: "run K e s = Inr (v, s')" and n: "e \<notin> set (d_set (dps s' d))" by blast
  from n have "\<forall>K1 K2. agree_off e K1 K2 \<longrightarrow>
      triggerEffects K1 (d_set (dps s' d)) s' = triggerEffects K2 (d_set (dps s' d)) s'"
    by (simp add: triggerEffects_agree)
  with r n show ?thesis by blast
qed

lemma run_drops_unread_dep_example:
  "\<exists>s'. run reader_K 0 two_deps = Inr (VUndefined, s') \<and> 0 \<notin> set (d_set (dps s' 0))
     \<and> (\<forall>K1 K2. agree_off 0 K1 K2 \<longrightarrow>
           triggerEffects K1 (d_set (dps s' 0)) s' = triggerEffects K2 (d_set (dps s' 0)) s')"
proof (rule run_drops_unread_dep[where rs = "[1]"])
  show "call_fn reader_K 0 = reads [1] VUndefined" by (simp add: reader_K_def)
  show "active (effs two_deps 0)" by (simp add: two_deps_def)
  show "\<not> deferStop (effs two_deps 0)" by (simp add: two_deps_def init_def)
  show "walk_parents (effs two_deps) (activeEffect two_deps) 0 = Some False"
    by (simp add: two_deps_def init_def walk_parents.simps)
  show "0 \<le> effectTrackDepth two_deps" by (simp add: two_deps_def init_def)
  show "effectTrackDepth two_deps < maxMarkerBits \<longrightarrow>
          \<not> bit (d_n (dps two_deps 0)) (nat (effectTrackDepth two_deps + 1))"
    by (simp add: two_deps_def init_def createDep_def)
  show "0 \<in> set (deps (effs two_deps 0))" by (simp add: two_deps_def)
  show "(0::nat) \<notin> set [1]" by simp
qed

text \<open>
  Scenario 2 of the spec, run through the proxy handlers: after \<open>o.c = false\<close> the write
  to \<open>o.a\<close> fires nothing, and the log is \<open>[1, 2]\<close>.
\<close>

lemma scenario_dynamic_deps:
  "ulog (state_of (execs (env 3) dynamic_deps_program abc_object)) = [VNum 1, VNum 2]"
  by (simp add: ev dynamic_deps_program_def abc_object_def)

text \<open>
  C1 fails on the code after an effect has been stopped, from a nested effect, while it
  was running. In \<open>stale_program\<close> the effect \<open>Y\<close> reads \<open>d\<close>, which sets the newTracked
  bit of the Dep of \<open>d\<close> for level 1, and is then stopped by the nested effect \<open>Z\<close>:
  \<open>stop\<close> only defers when the effect is the active one, so \<open>cleanupEffect\<close> empties
  \<open>Y.deps\<close> at once and the \<open>finalizeDepMarkers\<close> of \<open>Y\<close> clears no bit. The next run
  of \<open>X\<close>, fired by \<open>flag.value = false\<close>, reads \<open>flag\<close> only; it subscribed to \<open>d\<close> in
  its previous pass, yet the stale bit makes \<open>finalizeDepMarkers\<close> keep it: \<open>X\<close> is
  still a member of the Dep of \<open>d\<close>, and \<open>d.value = 5\<close> fires it again.
\<close>

theorem C1_stale_marker_keeps_effect:
  "d_n (dps (stale_after 4) 1) = 2
   \<and> trace (stale_after 5) = [EvFn 0, EvFn 2, EvFn 1, EvFn 0]
   \<and> ulog (stale_after 5) = [VNum 0, VNum 0, VNum (- 1)]
   \<and> r_dep (refs (stale_after 5) 1) = Some 1
   \<and> d_set (dps (stale_after 5) 1) = [0]
   \<and> deps (effs (stale_after 5) 0) = [0, 1]
   \<and> trace (stale_after 6) = [EvFn 0, EvFn 2, EvFn 1, EvFn 0, EvFn 0]
   \<and> ulog (stale_after 6) = [VNum 0, VNum 0, VNum (- 1), VNum (- 1)]"
  by (simp add: ev stale_after_def stale_program_def flag_and_d_def)

section \<open>The membership invariant\<close>

lemma trackEffects_cases:
  assumes "trackEffects d s = Inr s'"
  shows "(dps s' = dps s \<and> effs s' = effs s)
       \<or> (s' = set_n d s)
       \<or> (\<exists>a t. activeEffect s = Some a \<and> (t = s \<or> t = set_n d s)
             \<and> s' = set_deps a (deps (effs t a) @ [d]) (dep_add d a t)
             \<and> (effectTrackDepth s \<le> maxMarkerBits \<longrightarrow>
                   t = set_n d s \<and> \<not> newTracked s d \<and> \<not> wasTracked (set_n d s) d)
             \<and> (\<not> effectTrackDepth s \<le> maxMarkerBits \<longrightarrow> t = s \<and> a \<notin> set (d_set (dps s d))))"
  using assms
  by (auto simp: trackEffects_def Let_def set_n_def split: if_splits option.splits)

lemma bidir_set_n: "bidir (set_n d s) = bidir s"
  by (simp add: bidir_def proj)

lemma bidir_add:
  assumes "bidir t"
  shows "bidir (set_deps a (deps (effs t a) @ [d]) (dep_add d a t))"
  using assms
  by (auto simp: bidir_def proj set_set_add)

lemma trackEffects_bidir:
  assumes "bidir s" "trackEffects d s = Inr s'"
  shows "bidir s'"
proof -
  from trackEffects_cases[OF assms(2)] consider
    "dps s' = dps s \<and> effs s' = effs s" | "s' = set_n d s"
    | a t where "t = s \<or> t = set_n d s" "s' = set_deps a (deps (effs t a) @ [d]) (dep_add d a t)"
    by blast
  then show ?thesis
  proof cases
    case 1
    with assms(1) show ?thesis by (simp add: bidir_def)
  next
    case 2
    with assms(1) show ?thesis by (simp add: bidir_set_n)
  next
    case 3
    from 3(1) assms(1) have "bidir t" by (auto simp: bidir_set_n)
    then show ?thesis unfolding 3(2) by (rule bidir_add)
  qed
qed

lemma fold_dep_delete_set:
  "set (d_set (dps (fold (\<lambda>d t. dep_delete d e t) ds s) x))
     = (if x \<in> set ds then set (d_set (dps s x)) - {e} else set (d_set (dps s x)))"
proof (induction ds arbitrary: s)
  case Nil
  show ?case by simp
next
  case (Cons d ds)
  show ?case
    by (auto simp: Cons[of "dep_delete d e s"] proj split: if_splits)
qed

lemma cleanupEffect_bidir:
  assumes "bidir s"
  shows "bidir (cleanupEffect e s)"
proof (cases "deps (effs s e) = []")
  case True
  with assms show ?thesis by (simp add: cleanupEffect_def)
next
  case False
  define t where "t = fold (\<lambda>d t. dep_delete d e t) (deps (effs s e)) s"
  have e: "effs t = effs s" using fold_dep_delete_frame[of e "deps (effs s e)" s 0] by (simp add: t_def)
  have m: "set (d_set (dps t x)) = (if x \<in> set (deps (effs s e)) then set (d_set (dps s x)) - {e} else set (d_set (dps s x)))" for x
    by (simp add: t_def fold_dep_delete_set)
  have "cleanupEffect e s = set_deps e [] t" using False by (simp add: cleanupEffect_def t_def)
  then show ?thesis using assms e m
    by (auto simp: bidir_def proj split: if_splits)
qed

lemma bidir_cong:
  assumes "\<And>d. set (d_set (dps t d)) = set (d_set (dps s d))"
    and "\<And>e. set (deps (effs t e)) = set (deps (effs s e))"
  shows "bidir t = bidir s"
  by (simp add: bidir_def assms)

lemma stop_bidir:
  assumes "bidir s" "stop K e s = Inr s'"
    and cb: "\<And>t t'. bidir t \<Longrightarrow> call_onStop K e t = Inr t' \<Longrightarrow> bidir t'"
  shows "bidir s'"
proof (cases "activeEffect s = Some e")
  case True
  with assms(2) have "s' = s\<lparr>effs := (effs s)(e := (effs s e)\<lparr>deferStop := True\<rparr>)\<rparr>"
    by (simp add: stop_def)
  then have "bidir s' = bidir s" by (intro bidir_cong) simp_all
  with assms(1) show ?thesis by simp
next
  case False
  show ?thesis
  proof (cases "active (effs s e)")
    case F: False
    with False assms(1,2) show ?thesis by (simp add: stop_def)
  next
    case True
    define c where "c = cleanupEffect e s"
    have bc: "bidir c" using assms(1) by (simp add: c_def cleanupEffect_bidir)
    show ?thesis
    proof (cases "onStop (effs c e) \<noteq> None")
      case T2: True
      with True False assms(2) obtain t where
        t: "call_onStop K e (c\<lparr>trace := trace c @ [EvOnStop e]\<rparr>) = Inr t"
        and s': "s' = t\<lparr>effs := (effs t)(e := (effs t e)\<lparr>active := False\<rparr>)\<rparr>"
        by (auto simp: stop_def Let_def bindR_def c_def split: sum.splits)
      have "bidir (c\<lparr>trace := trace c @ [EvOnStop e]\<rparr>)" using bc by (simp add: bidir_def)
      from cb[OF this t] have "bidir t" .
      moreover have "bidir s' = bidir t" unfolding s' by (intro bidir_cong) simp_all
      ultimately show ?thesis by simp
    next
      case F2: False
      with True False assms(2) have "s' = c\<lparr>effs := (effs c)(e := (effs c e)\<lparr>active := False\<rparr>)\<rparr>"
        by (auto simp: stop_def Let_def bindR_def c_def)
      then have "bidir s' = bidir c" by (intro bidir_cong) simp_all
      with bc show ?thesis by simp
    qed
  qed
qed

lemma finalize_loop_sets:
  assumes "distinct ds" "finalize_loop e ds s = (kept, s')"
  shows "set kept \<subseteq> set ds \<and> distinct kept
    \<and> (\<forall>x. set (d_set (dps s' x))
          = (if x \<in> set ds \<and> x \<notin> set kept then set (d_set (dps s x)) - {e}
             else set (d_set (dps s x))))"
  using assms
proof (induction ds arbitrary: s kept)
  case Nil
  then show ?case by simp
next
  case (Cons d ds)
  have dd: "distinct ds" "d \<notin> set ds" using Cons.prems(1) by simp_all
  show ?case
  proof (cases "wasTracked s d \<and> \<not> newTracked s d")
    case True
    with Cons.prems have fl: "finalize_loop e ds (clear_bits d (dep_delete d e s)) = (kept, s')"
      by simp
    from Cons.IH[OF dd(1) fl] dd(2) show ?thesis
      by (auto simp: proj split: if_splits)
  next
    case False
    with Cons.prems obtain k' where fl: "finalize_loop e ds (clear_bits d s) = (k', s')"
      and k: "kept = d # k'"
      by (auto split: prod.splits)
    from Cons.IH[OF dd(1) fl] dd(2) show ?thesis
      by (auto simp: k proj split: if_splits)
  qed
qed

lemma finalize_bidir:
  assumes "bidir s" "distinct (deps (effs s e))"
  shows "bidir (finalizeDepMarkers e s) \<and> distinct (deps (effs (finalizeDepMarkers e s) e))"
proof (cases "deps (effs s e) = []")
  case True
  with assms show ?thesis by (simp add: finalizeDepMarkers_def)
next
  case False
  obtain kept t where fl: "finalize_loop e (deps (effs s e)) s = (kept, t)"
    by (cases "finalize_loop e (deps (effs s e)) s")
  note st = finalize_loop_sets[OF assms(2) fl]
  have e: "effs t = effs s" using finalize_loop_frame[OF fl, of 0] by simp
  have f: "finalizeDepMarkers e s = set_deps e kept t"
    using False by (simp add: finalizeDepMarkers_def fl)
  have "bidir (set_deps e kept t)"
    unfolding bidir_def
  proof (intro allI)
    fix d x
    show "(x \<in> set (d_set (dps (set_deps e kept t) d))) = (d \<in> set (deps (effs (set_deps e kept t) x)))"
    proof (cases "x = e")
      case True
      have "(e \<in> set (d_set (dps t d))) = (d \<in> set kept)"
        using st assms(1) by (auto simp: bidir_def split: if_splits)
      then show ?thesis using True by (simp add: proj)
    next
      case False
      have "(x \<in> set (d_set (dps t d))) = (x \<in> set (d_set (dps s d)))"
        using st False by (auto split: if_splits)
      then show ?thesis using False assms(1) e by (simp add: proj bidir_def)
    qed
  qed
  then show ?thesis using st by (simp add: f proj)
qed


lemma trackEffects_pass:
  assumes a: "activeEffect s = Some e" and b: "bidir s" and d: "distinct (deps (effs s e))"
    and m: "effectTrackDepth s \<le> maxMarkerBits \<longrightarrow> level s k \<and>
              (\<forall>y\<in>set (deps (effs s e)). bit (d_w (dps s y)) k \<or> bit (d_n (dps s y)) k)"
    and t: "trackEffects x s = Inr s'"
  shows "bidir s' \<and> distinct (deps (effs s' e)) \<and>
         (effectTrackDepth s' \<le> maxMarkerBits \<longrightarrow> level s' k \<and>
              (\<forall>y\<in>set (deps (effs s' e)). bit (d_w (dps s' y)) k \<or> bit (d_n (dps s' y)) k))"
proof -
  note fr = trackEffects_frame[OF t]
  have bs: "bidir s'" using b t by (rule trackEffects_bidir)
  have lv: "effectTrackDepth s \<le> maxMarkerBits \<Longrightarrow> level s' k"
    using m fr(2) by (simp add: level_def)
  from trackEffects_cases[OF t] consider
    (same) "dps s' = dps s \<and> effs s' = effs s" | (mark) "s' = set_n x s"
    | (add) u where "u = s \<or> u = set_n x s"
        "s' = set_deps e (deps (effs u e) @ [x]) (dep_add x e u)"
        "effectTrackDepth s \<le> maxMarkerBits \<longrightarrow>
                   u = set_n x s \<and> \<not> newTracked s x \<and> \<not> wasTracked (set_n x s) x"
        "\<not> effectTrackDepth s \<le> maxMarkerBits \<longrightarrow> u = s \<and> e \<notin> set (d_set (dps s x))"
    using a by auto
  then show ?thesis
  proof cases
    case same
    with bs d m fr(1) lv show ?thesis by simp
  next
    case mark
    with bs d m fr(1) lv show ?thesis by (auto simp: proj bit_simps)
  next
    case add
    have du: "deps (effs u e) = deps (effs s e)" using add(1) by (auto simp: proj)
    have nx: "x \<notin> set (deps (effs s e))"
    proof (cases "effectTrackDepth s \<le> maxMarkerBits")
      case True
      with m have l: "level s k" by simp
      then have l2: "level (set_n x s) k" by (simp add: level_def proj)
      from True add(3) have "\<not> newTracked s x" "\<not> wasTracked (set_n x s) x" by simp_all
      then have "\<not> bit (d_n (dps s x)) k" "\<not> bit (d_w (dps s x)) k"
        by (simp_all add: newTracked_bit[OF l] wasTracked_bit[OF l2] proj)
      with m True show ?thesis by blast
    next
      case False
      with add(4) have "e \<notin> set (d_set (dps s x))" by simp
      with b show ?thesis by (simp add: bidir_def)
    qed
    have dis: "distinct (deps (effs s' e))" using d nx by (simp add: add(2) proj du)
    have "\<forall>y\<in>set (deps (effs s' e)). bit (d_w (dps s' y)) k \<or> bit (d_n (dps s' y)) k"
      if T: "effectTrackDepth s \<le> maxMarkerBits"
    proof -
      from T m have l: "level s k" by simp
      from T add(3) have u: "u = set_n x s" by simp
      have "bit (d_n (dps s' x)) k"
        using l by (simp add: add(2) u proj level_def bit_simps)
      moreover have "\<forall>y\<in>set (deps (effs s e)). bit (d_w (dps s' y)) k \<or> bit (d_n (dps s' y)) k"
        using m T by (auto simp: add(2) u proj bit_simps)
      ultimately show ?thesis by (simp add: add(2) proj du)
    qed
    with bs dis lv fr(1) show ?thesis by simp
  qed
qed

lemma tracks_pass:
  assumes "activeEffect s = Some e" "bidir s" "distinct (deps (effs s e))"
    and "effectTrackDepth s \<le> maxMarkerBits \<longrightarrow> level s k \<and>
              (\<forall>y\<in>set (deps (effs s e)). bit (d_w (dps s y)) k \<or> bit (d_n (dps s y)) k)"
    and "tracks rs s = Inr s'"
  shows "bidir s' \<and> distinct (deps (effs s' e))"
  using assms
proof (induction rs arbitrary: s)
  case Nil
  then show ?case by simp
next
  case (Cons x rs)
  show ?case
  proof (cases "shouldTrack s")
    case False
    with Cons.prems(5) have "tracks rs s = Inr s'" by (simp add: bindR_def)
    from Cons.IH[OF Cons.prems(1-4) this] show ?thesis .
  next
    case True
    with Cons.prems(1) obtain s1 where s1: "trackEffects x s = Inr s1"
      using trackEffects_total[of s x] by auto
    with True Cons.prems(1,5) have r: "tracks rs s1 = Inr s'" by (simp add: bindR_def)
    note p = trackEffects_pass[OF Cons.prems(1-4) s1]
    have a1: "activeEffect s1 = Some e" using trackEffects_frame(3)[OF s1] Cons.prems(1) by simp
    from Cons.IH[OF a1 _ _ _ r] p show ?thesis by blast
  qed
qed


lemma run_try_bidir:
  assumes "bidir s" "distinct (deps (effs s e))"
  shows "bidir (run_try e s)" "distinct (deps (effs (run_try e s) e))"
    "activeEffect (run_try e s) = Some e"
proof -
  define s1 where "s1 = s\<lparr>effs := (effs s)(e := (effs s e)\<lparr>parent := activeEffect s\<rparr>),
                 activeEffect := Some e,
                 shouldTrack := True,
                 effectTrackDepth := effectTrackDepth s + 1,
                 trackOpBit := shl1 (effectTrackDepth s + 1)\<rparr>"
  have "bidir s1 = bidir s" by (intro bidir_cong) (simp_all add: s1_def)
  with assms have b1: "bidir s1" by simp
  have d1: "deps (effs s1 e) = deps (effs s e)" "activeEffect s1 = Some e" by (simp_all add: s1_def)
  have rt: "run_try e s = (if effectTrackDepth s1 \<le> maxMarkerBits then fold set_w (deps (effs s1 e)) s1
         else cleanupEffect e s1)"
    by (simp add: run_try_def Let_def s1_def initDepMarkers_def)
  have f: "bidir (fold set_w ds s1) = bidir s1" for ds
    by (intro bidir_cong) (simp_all add: fold_set_w_frame)
  have ce: "deps (effs (cleanupEffect e s1) e) = [] \<and> activeEffect (cleanupEffect e s1) = Some e"
    using fold_dep_delete_frame[of e "deps (effs s1 e)" s1 0] d1
    by (simp add: cleanupEffect_def proj)
  show "bidir (run_try e s)" using b1 by (simp add: rt f cleanupEffect_bidir)
  show "distinct (deps (effs (run_try e s) e))"
    using assms(2) d1 ce by (simp add: rt fold_set_w_frame)
  show "activeEffect (run_try e s) = Some e"
    using d1 ce by (simp add: rt fold_set_w_frame)
qed

lemma run_finally_bidir:
  assumes "bidir s" "distinct (deps (effs s e))"
  shows "bidir (run_finally e l s)" "distinct (deps (effs (run_finally e l s) e))"
proof -
  define s1 where "s1 = (if effectTrackDepth s \<le> maxMarkerBits then finalizeDepMarkers e s else s)"
  have b1: "bidir s1 \<and> distinct (deps (effs s1 e))"
    using assms finalize_bidir[OF assms] by (simp add: s1_def)
  have rf: "run_finally e l s = s1\<lparr>effectTrackDepth := effectTrackDepth s1 - 1,
             trackOpBit := shl1 (effectTrackDepth s1 - 1),
             activeEffect := parent (effs s1 e),
             shouldTrack := l,
             effs := (effs s1)(e := (effs s1 e)\<lparr>parent := None\<rparr>)\<rparr>"
    by (simp add: run_finally_def Let_def s1_def)
  have "bidir (run_finally e l s) = bidir s1" unfolding rf by (intro bidir_cong) simp_all
  with b1 show "bidir (run_finally e l s)" by simp
  show "distinct (deps (effs (run_finally e l s) e))" using b1 by (simp add: rf)
qed

lemma run_reads_bidir:
  assumes fn: "call_fn K e = reads rs v"
    and act: "active (effs s e)" and nd: "\<not> deferStop (effs s e)"
    and chain: "walk_parents (effs s) (activeEffect s) e = Some False"
    and depth: "0 \<le> effectTrackDepth s"
    and b: "bidir s" and d: "distinct (deps (effs s e))"
  shows "\<exists>s'. run K e s = Inr (v, s') \<and> bidir s' \<and> distinct (deps (effs s' e))"
proof -
  define s2 where "s2 = (run_try e s)\<lparr>trace := trace (run_try e s) @ [EvFn e]\<rparr>"
  obtain s3 where s3: "tracks rs s2 = Inr s3" using tracks_total by blast
  note fr = tracks_frame[OF s3]
  define s5 where "s5 = run_finally e (shouldTrack s) s3"
  note rt = run_try_bidir[OF b d]
  have b2: "bidir s2" "distinct (deps (effs s2 e))" "activeEffect s2 = Some e"
    using rt by (simp_all add: s2_def bidir_def)
  define k where "k = nat (effectTrackDepth s + 1)"
  have m2: "effectTrackDepth s2 \<le> maxMarkerBits \<longrightarrow> level s2 k \<and>
              (\<forall>y\<in>set (deps (effs s2 e)). bit (d_w (dps s2 y)) k \<or> bit (d_n (dps s2 y)) k)"
  proof
    assume "effectTrackDepth s2 \<le> maxMarkerBits"
    then have lt: "effectTrackDepth s < maxMarkerBits" by (simp add: s2_def run_try_frame)
    note m = run_try_marker[OF depth lt k_def, of e]
    show "level s2 k \<and>
              (\<forall>y\<in>set (deps (effs s2 e)). bit (d_w (dps s2 y)) k \<or> bit (d_n (dps s2 y)) k)"
      using m(1) m(2) m(4) by (simp add: s2_def level_def)
  qed
  from tracks_pass[OF b2(3) b2(1) b2(2) m2 s3]
  have b3: "bidir s3" "distinct (deps (effs s3 e))" by simp_all
  note rf = run_finally_bidir[OF b3, of "shouldTrack s"]
  have ds3: "\<not> deferStop (effs s3 e)" using fr run_try_frame(1)[OF nd] by (simp add: s2_def)
  then have ds5: "\<not> deferStop (effs s5 e)" by (simp add: s5_def run_finally_frame)
  have "call_logged K e (run_try e s) = Inr (v, s3)"
    by (simp add: call_logged_def fn reads_def s3[unfolded s2_def] bindR_def)
  then have "run K e s = Inr (v, s5)"
    using act chain ds5 by (simp add: run_def bindR_def Let_def s5_def)
  with rf show ?thesis by (auto simp: s5_def)
qed

text \<open>
  C2. In a state where every effect is a member of exactly the Deps in its \<open>deps\<close>,
  each operation that changes one side changes the other with it: \<open>trackEffects\<close>,
  \<open>cleanupEffect\<close>, \<open>stop\<close> (whose \<open>onStop\<close> hook is user code, taken to keep the
  invariant) and \<open>finalizeDepMarkers\<close> (on a \<open>deps\<close> array without repetition, which
  is what tracking builds) return states with the invariant. And a whole \<open>run\<close> of an
  effect whose \<open>fn\<close> reads Deps, from entry back to idle, returns a state with the
  invariant and with \<open>deps\<close> still free of repetition.
\<close>

theorem C2_membership_invariant:
  assumes "bidir s"
  shows "(\<forall>d s'. trackEffects d s = Inr s' \<longrightarrow> bidir s')
    \<and> (\<forall>e. bidir (cleanupEffect e s))
    \<and> (\<forall>e s'. (\<forall>t t'. bidir t \<longrightarrow> call_onStop K e t = Inr t' \<longrightarrow> bidir t') \<longrightarrow>
          stop K e s = Inr s' \<longrightarrow> bidir s')
    \<and> (\<forall>e. distinct (deps (effs s e)) \<longrightarrow> bidir (finalizeDepMarkers e s))
    \<and> (\<forall>e rs v. call_fn K e = reads rs v \<and> active (effs s e) \<and> \<not> deferStop (effs s e)
          \<and> walk_parents (effs s) (activeEffect s) e = Some False \<and> 0 \<le> effectTrackDepth s
          \<and> distinct (deps (effs s e)) \<longrightarrow>
          (\<exists>s'. run K e s = Inr (v, s') \<and> bidir s' \<and> distinct (deps (effs s' e))))"
proof (intro conjI allI impI)
  fix d s' assume "trackEffects d s = Inr s'"
  with assms show "bidir s'" by (rule trackEffects_bidir)
next
  fix e show "bidir (cleanupEffect e s)" using assms by (rule cleanupEffect_bidir)
next
  fix e s'
  assume cb: "\<forall>t t'. bidir t \<longrightarrow> call_onStop K e t = Inr t' \<longrightarrow> bidir t'"
    and st: "stop K e s = Inr s'"
  from cb have "\<And>t t'. bidir t \<Longrightarrow> call_onStop K e t = Inr t' \<Longrightarrow> bidir t'" by blast
  with assms st show "bidir s'" by (rule stop_bidir)
next
  fix e assume "distinct (deps (effs s e))"
  with assms show "bidir (finalizeDepMarkers e s)" using finalize_bidir by blast
next
  fix e rs v
  assume h: "call_fn K e = reads rs v \<and> active (effs s e) \<and> \<not> deferStop (effs s e)
          \<and> walk_parents (effs s) (activeEffect s) e = Some False \<and> 0 \<le> effectTrackDepth s
          \<and> distinct (deps (effs s e))"
  then show "\<exists>s'. run K e s = Inr (v, s') \<and> bidir s' \<and> distinct (deps (effs s' e))"
    using run_reads_bidir[of K e rs v s] assms by blast
qed

lemma bidir_two_deps: "bidir two_deps"
  by (auto simp: bidir_def two_deps_def init_def createDep_def set_add_def)

theorem C2_membership_invariant_witness:
  "bidir two_deps
   \<and> bidir (cleanupEffect 0 two_deps)
   \<and> bidir (finalizeDepMarkers 0 two_deps)
   \<and> (\<exists>s'. run reader2_K 0 two_deps = Inr (VUndefined, s') \<and> bidir s'
          \<and> distinct (deps (effs s' 0)))"
proof -
  note t = C2_membership_invariant[OF bidir_two_deps, of reader2_K]
  have h: "call_fn reader2_K 0 = reads [1, 2] VUndefined \<and> active (effs two_deps 0)
      \<and> \<not> deferStop (effs two_deps 0)
      \<and> walk_parents (effs two_deps) (activeEffect two_deps) 0 = Some False
      \<and> 0 \<le> effectTrackDepth two_deps \<and> distinct (deps (effs two_deps 0))"
    by (simp add: reader2_K_def two_deps_def init_def walk_parents.simps)
  from t h bidir_two_deps show ?thesis by blast
qed

section \<open>Trigger order\<close>

text \<open>
  The firings that one call of \<open>triggerEffects\<close> makes itself are in the order the spec
  gives (\<open>triggerEffects_in_order\<close>). For the write \<open>a.value = 2\<close> after \<open>observed\<close>,
  which calls \<open>triggerEffects\<close> on the members 2, 0, 1 of the Dep of \<open>a\<close>, the call
  fires the effects 0 and 1 of the computeds and then the plain effect 2.
\<close>

lemma triggerEffects_in_order_example:
  "computed_kept (env 6) [2, 0, 1] [0, 1, 2] (ref_store 0 (VNum 2) observed)
   \<and> triggerEffects (env 6) [2, 0, 1] (ref_store 0 (VNum 2) observed)
       = spec_fire_in_order (env 6) [0, 1, 2] (ref_store 0 (VNum 2) observed)"
proof -
  have o: "computed_first (ref_store 0 (VNum 2) observed) [2, 0, 1] = [0, 1, 2]"
    by (simp add: computed_first_def ev observed_def observer_program_def two_computeds_def
        one_ref_def)
  have k: "computed_kept (env 6) [2, 0, 1] [0, 1, 2] (ref_store 0 (VNum 2) observed)"
    by (simp add: ev spec_fire_def observed_def observer_program_def two_computeds_def one_ref_def)
  from k have k': "computed_kept (env 6) [2, 0, 1]
      (computed_first (ref_store 0 (VNum 2) observed) [2, 0, 1]) (ref_store 0 (VNum 2) observed)"
    by (simp only: o)
  from triggerEffects_in_order[OF k'] have
    "triggerEffects (env 6) [2, 0, 1] (ref_store 0 (VNum 2) observed)
       = spec_fire_in_order (env 6) [0, 1, 2] (ref_store 0 (VNum 2) observed)"
    by (simp only: o)
  with k show ?thesis by (rule conjI)
qed


section \<open>No re-entry\<close>

lemma in_chain_walk: "in_chain es p e \<Longrightarrow> walk_parents es p e = Some True"
  by (induction rule: in_chain.induct) (simp_all add: walk_parents.simps)

text \<open>
  C4, amended. An effect whose \<open>active\<close> flag is set and that occurs in the parent chain
  of the active effect returns from \<open>run\<close> at once: the result is \<open>undefined\<close> and the
  state, the record of calls of user functions included, is unchanged, whatever the user
  functions are. And \<open>triggerEffect\<close> on the active effect does nothing unless
  \<open>allowRecurse\<close> is set.
\<close>

theorem C4_active_effect_never_reenters:
  "(active (effs s e) \<and> in_chain (effs s) (activeEffect s) e \<longrightarrow> run K e s = Inr (VUndefined, s))
   \<and> (activeEffect s = Some e \<and> \<not> allowRecurse (effs s e) \<longrightarrow> triggerEffect K e s = Inr s)"
  by (simp add: run_def in_chain_walk triggerEffect_def)

theorem C4_active_effect_never_reenters_witness:
  "active (effs nested_running 0) \<and> in_chain (effs nested_running) (activeEffect nested_running) 0
   \<and> run (env 3) 0 nested_running = Inr (VUndefined, nested_running)
   \<and> activeEffect nested_running = Some 1 \<and> \<not> allowRecurse (effs nested_running 1)
   \<and> triggerEffect (env 3) 1 nested_running = Inr nested_running"
proof -
  have a: "active (effs nested_running 0)" by (simp add: nested_running_def)
  have "in_chain (effs nested_running) (parent (effs nested_running 1)) 0"
    by (simp add: nested_running_def in_chain.here)
  then have c: "in_chain (effs nested_running) (activeEffect nested_running) 0"
    using in_chain.above[of 1 0 "effs nested_running"] by (simp add: nested_running_def)
  have t: "activeEffect nested_running = Some 1 \<and> \<not> allowRecurse (effs nested_running 1)"
    by (simp add: nested_running_def init_def)
  from a c t C4_active_effect_never_reenters[of nested_running 0 "env 3"]
    C4_active_effect_never_reenters[of nested_running 1 "env 3"]
  show ?thesis by simp
qed

text \<open>
  C4 as stated fails for an effect whose \<open>active\<close> flag is cleared: \<open>run\<close> tests
  \<open>!this.active\<close> before it walks the chain and calls \<open>fn\<close>. In \<open>nested_stopped\<close>
  effect 0 is in the chain of the active effect 1, and its \<open>run\<close> calls its \<open>fn\<close>.
  The state is reached by \<open>reentry_program\<close>, where the \<open>fn\<close> of effect 0 is called a
  second time from inside effect 1.
\<close>

theorem C4_inactive_effect_reenters:
  "in_chain (effs nested_stopped) (activeEffect nested_stopped) 0
   \<and> run (env 1) 0 nested_stopped = Inr (VUndefined, nested_stopped\<lparr>trace := [EvFn 0]\<rparr>)
   \<and> trace (state_of (execs (env 4) reentry_program init)) = [EvFn 0, EvFn 1, EvFn 0]"
proof -
  have "in_chain (effs nested_stopped) (parent (effs nested_stopped 1)) 0"
    by (simp add: nested_stopped_def nested_running_def in_chain.here)
  then have c: "in_chain (effs nested_stopped) (activeEffect nested_stopped) 0"
    using in_chain.above[of 1 0 "effs nested_stopped"]
    by (simp add: nested_stopped_def nested_running_def)
  have r: "run (env 1) 0 nested_stopped = Inr (VUndefined, nested_stopped\<lparr>trace := [EvFn 0]\<rparr>)"
    by (simp add: run_def call_logged_def nested_stopped_def nested_running_def init_def
        call_prog_def bindR_def)
  have t: "trace (state_of (execs (env 4) reentry_program init)) = [EvFn 0, EvFn 1, EvFn 0]"
    by (simp add: ev reentry_program_def)
  show ?thesis by (rule conjI[OF c conjI[OF r t]])
qed

section \<open>Computed values\<close>


















text \<open>
  Scenarios 3 and 4 of the spec: the three reads give 6 and the getter runs once, at the
  first read.
\<close>

lemma scenario_computed_lazy:
  "ulog (state_of (execs (env 3) lazy_program with_computed)) = [VNum 6, VNum 6, VNum 6]
   \<and> trace (state_of (execs (env 3) lazy_program with_computed)) = [EvFn 0]"
  by (simp add: ev lazy_program_def with_computed_def one_ref_def)

section \<open>Ref writes\<close>

lemma toRaw_idem: "toRaw (toRaw v) = toRaw v"
  by (induction v) simp_all

lemma triggerEffects_Nil: "triggerEffects K [] s = Inr s"
  by (simp add: triggerEffects_def bindR_def)

lemma ref_set_value_changed:
  assumes "hasChanged (if r_isShallow (refs s r) then v else toRaw v) (r_rawValue (refs s r))"
  shows "ref_set_value K r v s =
           triggerEffects K (subscribers s r)
             (ref_store r (if r_isShallow (refs s r) then v else toRaw v) s)"
  using assms
  by (simp add: ref_set_value_def triggerRefValue_def subscribers_def ref_store_def Let_def
      triggerEffects_Nil split: option.splits)

text \<open>
  C6. Let \<open>newVal\<close> be the assigned value, unwrapped to raw unless the ref is shallow.
  If it differs from the stored \<open>rawValue\<close>, the assignment stores it as \<open>rawValue\<close>,
  stores it wrapped (or as it is, for a shallow ref) as \<open>value\<close>, and re-fires the
  subscribers of the ref: the members of its Dep are fired one after the other, those
  that own a computed first, each by its scheduler if it has one and by \<open>run\<close>
  otherwise (provided no firing assigns \<open>effect.computed\<close> of a subscriber). If it does
  not differ, the assignment returns the state it was called in: nothing is fired and
  \<open>rawValue\<close> and \<open>value\<close> are unchanged. In particular, assigning the same value
  to the ref just stored does nothing.
\<close>

theorem C6_ref_write_guard:
  "(let newVal = (if r_isShallow (refs s r) then v else toRaw v);
        stored = ref_store r newVal s;
        fired = computed_first stored (subscribers s r)
    in (hasChanged newVal (r_rawValue (refs s r)) \<longrightarrow>
          r_rawValue (refs stored r) = newVal
          \<and> r_value (refs stored r) = (if r_isShallow (refs s r) then newVal else toReactive newVal)
          \<and> (computed_kept K (subscribers s r) fired stored \<longrightarrow>
               ref_set_value K r v s = spec_fire_in_order K fired stored))
     \<and> (\<not> hasChanged newVal (r_rawValue (refs s r)) \<longrightarrow> ref_set_value K r v s = Inr s)
     \<and> ref_set_value K r v stored = Inr stored)"
proof -
  define newVal where "newVal = (if r_isShallow (refs s r) then v else toRaw v)"
  define stored where "stored = ref_store r newVal s"
  define fired where "fired = computed_first stored (subscribers s r)"
  have a: "r_rawValue (refs stored r) = newVal"
    "r_value (refs stored r) = (if r_isShallow (refs s r) then newVal else toReactive newVal)"
    by (simp_all add: stored_def ref_store_def)
  have b: "ref_set_value K r v s = spec_fire_in_order K fired stored"
    if "hasChanged newVal (r_rawValue (refs s r))" "computed_kept K (subscribers s r) fired stored"
  proof -
    from that(1) have "ref_set_value K r v s = triggerEffects K (subscribers s r) stored"
      unfolding newVal_def stored_def by (rule ref_set_value_changed)
    also from that(2) have "\<dots> = spec_fire_in_order K fired stored"
      unfolding fired_def by (rule triggerEffects_in_order)
    finally show ?thesis .
  qed
  have c: "ref_set_value K r v s = Inr s" if "\<not> hasChanged newVal (r_rawValue (refs s r))"
    using that by (simp add: ref_set_value_def newVal_def Let_def)
  have d: "ref_set_value K r v stored = Inr stored"
    by (simp add: ref_set_value_def stored_def newVal_def ref_store_def hasChanged_def Let_def
        toRaw_idem)
  from a b c d show ?thesis
    unfolding Let_def newVal_def[symmetric] stored_def[symmetric] fired_def[symmetric] by blast
qed

text \<open>
  The ref of \<open>watched_ref\<close> holds 1 and has effect 0 as its subscriber. Writing 2 runs
  the effect again, which logs 2; writing 1 does nothing.
\<close>

theorem C6_ref_write_guard_witness:
  "hasChanged (VNum 2) (r_rawValue (refs watched_ref 0))
   \<and> subscribers watched_ref 0 = [0]
   \<and> computed_kept (env 3) [0] [0] (ref_store 0 (VNum 2) watched_ref)
   \<and> ref_set_value (env 3) 0 (VNum 2) watched_ref
       = spec_fire_in_order (env 3) [0] (ref_store 0 (VNum 2) watched_ref)
   \<and> trace (state_of (spec_fire_in_order (env 3) [0] (ref_store 0 (VNum 2) watched_ref)))
       = trace watched_ref @ [EvFn 0]
   \<and> ulog (state_of (spec_fire_in_order (env 3) [0] (ref_store 0 (VNum 2) watched_ref)))
       = [VNum 1, VNum 2]
   \<and> \<not> hasChanged (VNum 1) (r_rawValue (refs watched_ref 0))
   \<and> ref_set_value (env 3) 0 (VNum 1) watched_ref = Inr watched_ref"
proof -
  have sh: "\<not> r_isShallow (refs watched_ref 0)" "r_rawValue (refs watched_ref 0) = VNum 1"
    and su: "subscribers watched_ref 0 = [0]"
    by (simp_all add: ev subscribers_def watched_ref_def one_ref_def)
  have o: "computed_first (ref_store 0 (VNum 2) watched_ref) [0] = [0]"
    by (simp add: computed_first_def ev watched_ref_def one_ref_def)
  have k: "computed_kept (env 3) [0] [0] (ref_store 0 (VNum 2) watched_ref)"
    by (simp add: ev spec_fire_def watched_ref_def one_ref_def)
  have t: "trace (state_of (spec_fire_in_order (env 3) [0] (ref_store 0 (VNum 2) watched_ref)))
       = trace watched_ref @ [EvFn 0]"
    "ulog (state_of (spec_fire_in_order (env 3) [0] (ref_store 0 (VNum 2) watched_ref)))
       = [VNum 1, VNum 2]"
    by (simp_all add: ev spec_fire_def watched_ref_def one_ref_def)
  have c2: "hasChanged (VNum 2) (r_rawValue (refs watched_ref 0))"
    and c1: "\<not> hasChanged (VNum 1) (r_rawValue (refs watched_ref 0))"
    by (simp_all add: sh hasChanged_def)
  from C6_ref_write_guard[of watched_ref 0 "VNum 2" "env 3"] c2 k
  have e2: "ref_set_value (env 3) 0 (VNum 2) watched_ref
       = spec_fire_in_order (env 3) [0] (ref_store 0 (VNum 2) watched_ref)"
    by (simp only: Let_def sh su o if_False toRaw.simps simp_thms)
  from C6_ref_write_guard[of watched_ref 0 "VNum 1" "env 3"] c1
  have e1: "ref_set_value (env 3) 0 (VNum 1) watched_ref = Inr watched_ref"
    by (simp only: Let_def sh if_False toRaw.simps simp_thms)
  from c2 su k e2 t c1 e1 show ?thesis by (intro conjI)
qed

text \<open>Scenario 1 of the spec: the log is \<open>[1, 2, 3]\<close>.\<close>

lemma scenario_ref_writes:
  "ulog (state_of (execs (env 3) ref_writes_program one_ref)) = [VNum 1, VNum 2, VNum 3]"
  by (simp add: ev ref_writes_program_def one_ref_def)

section \<open>Length trigger\<close>

lemmas strnum_ev = is_ws_def digit_of_def is_digit_def exponent_part_def unsigned_decimal_def
  radix_of_def numeric_literal_def StringToNumber_def number_ge_def Let_def

text \<open>
  Where the keys registered for the array are \<open>length\<close>, index keys and strings that do
  not read as a number, the length branch gathers, in the order of the map, the Dep of
  \<open>length\<close> and the Deps of the index keys at or past the new length, and no other.
\<close>

lemma length_deps_plain_keys:
  assumes "\<forall>(k, d) \<in> set m. \<not> isSymbol k
             \<and> (\<forall>str. k = KStr str \<and> str \<noteq> ''length'' \<longrightarrow> StringToNumber str = Some NotANumber)"
  shows "length_deps m (VNum len) =
           Inr (map (\<lambda>(k, d). Some d)
                  (filter (\<lambda>(k, d). k = KStr ''length'' \<or> (\<exists>i. k = KIdx i \<and> len \<le> int i)) m))"
  using assms
proof (induction m)
  case Nil
  show ?case by simp
next
  case (Cons kd m)
  obtain k d where kd: "kd = (k, d)" by (cases kd)
  from Cons.prems have ih: "length_deps m (VNum len) =
           Inr (map (\<lambda>(k, d). Some d)
                  (filter (\<lambda>(k, d). k = KStr ''length'' \<or> (\<exists>i. k = KIdx i \<and> len \<le> int i)) m))"
    by (intro Cons.IH) simp
  from Cons.prems kd have ns: "\<not> isSymbol k"
    and nn: "\<And>str. k = KStr str \<Longrightarrow> str \<noteq> ''length'' \<Longrightarrow> StringToNumber str = Some NotANumber"
    by simp_all
  show ?case
  proof (cases k)
    case (KStr str)
    show ?thesis
    proof (cases "str = ''length''")
      case True
      with KStr show ?thesis by (simp add: kd ih bindR_def)
    next
      case False
      with KStr nn have "StringToNumber str = Some NotANumber" by simp
      with KStr False show ?thesis by (simp add: kd ih bindR_def number_ge_def)
    qed
  next
    case (KIdx i)
    then show ?thesis by (simp add: kd ih bindR_def)
  next
    case (KSym i)
    with ns show ?thesis by simp
  qed
qed

text \<open>
  A string key that reads as a number is compared as that number: the Dep of the key
  \<open>1.5\<close> is gathered for the new length 1 and not for the new length 2.
\<close>

lemma length_deps_numeric_string:
  "length_deps [(KStr ''1.5'', d)] (VNum 1) = Inr [Some d]
   \<and> length_deps [(KStr ''1.5'', d)] (VNum 2) = Inr []"
  by (simp add: strnum_ev bindR_def)

text \<open>
  C7 fails on the code where a symbol key is registered for the array. An effect that
  reads \<open>arr[sym]\<close> for a user symbol registers a Dep under the symbol; \<open>arr.length = 0\<close>
  then reaches \<open>key >= newValue\<close> with that symbol, which throws a TypeError: no Dep is
  gathered and none is fired, the Dep of \<open>length\<close> included.
\<close>

theorem C7_symbol_key_throws:
  "isArray symbol_tracked 0
   \<and> trigger idle_K 0 SET (Some (KStr ''length'')) (VNum 0) symbol_tracked = Inl TypeError
   \<and> error_of (execs (env 3) symbol_length_program one_array) = Some TypeError"
  by (simp add: ev symbol_tracked_def one_array_def symbol_length_program_def)

section \<open>Readonly handlers\<close>

text \<open>
  C8. With the handlers of a readonly or shallow readonly proxy, the \<open>set\<close> trap and
  the \<open>deleteProperty\<close> trap return \<open>true\<close>; the state they return is the state they
  were called in but for the warnings appended in a development build: the target, the
  registry, the Deps and the effects are untouched and no user function is called.
\<close>

theorem C8_readonly_writes_are_noops:
  "is_readonly_kind kd \<longrightarrow>
     (\<exists>msgs. handler_set kd dev K target k v receiver s = Inr (True, s\<lparr>warnings := warnings s @ msgs\<rparr>)
        \<and> (\<not> dev \<longrightarrow> msgs = []))
   \<and> (\<exists>msgs. handler_deleteProperty kd dev K target k s = Inr (True, s\<lparr>warnings := warnings s @ msgs\<rparr>)
        \<and> (\<not> dev \<longrightarrow> msgs = []))"
proof (cases "is_readonly_kind kd")
  case False
  then show ?thesis by simp
next
  case True
  then have "kd = Readonly \<or> kd = ShallowReadonly" by (cases kd) simp_all
  then show ?thesis
  proof
    assume kd: "kd = Readonly"
    show ?thesis
    proof (cases dev)
      case True
      have "handler_set kd dev K target k v receiver s
          = Inr (True, s\<lparr>warnings := warnings s @ [''Set operation on key '' @ key_string k @ '' failed: target is readonly.'']\<rparr>)"
        using True by (simp add: kd readonly_set_def warn_def)
      moreover have "handler_deleteProperty kd dev K target k s
          = Inr (True, s\<lparr>warnings := warnings s @ [''Delete operation on key '' @ key_string k @ '' failed: target is readonly.'']\<rparr>)"
        using True by (simp add: kd readonly_deleteProperty_def warn_def)
      ultimately show ?thesis using True by blast
    next
      case False
      have "handler_set kd dev K target k v receiver s = Inr (True, s\<lparr>warnings := warnings s @ []\<rparr>)"
        using False by (simp add: kd readonly_set_def)
      moreover have "handler_deleteProperty kd dev K target k s = Inr (True, s\<lparr>warnings := warnings s @ []\<rparr>)"
        using False by (simp add: kd readonly_deleteProperty_def)
      ultimately show ?thesis by blast
    qed
  next
    assume kd: "kd = ShallowReadonly"
    show ?thesis
    proof (cases dev)
      case True
      have "handler_set kd dev K target k v receiver s
          = Inr (True, s\<lparr>warnings := warnings s @ [''Set operation on key '' @ key_string k @ '' failed: target is readonly.'']\<rparr>)"
        using True by (simp add: kd readonly_set_def warn_def)
      moreover have "handler_deleteProperty kd dev K target k s
          = Inr (True, s\<lparr>warnings := warnings s @ [''Delete operation on key '' @ key_string k @ '' failed: target is readonly.'']\<rparr>)"
        using True by (simp add: kd readonly_deleteProperty_def warn_def)
      ultimately show ?thesis using True by blast
    next
      case False
      have "handler_set kd dev K target k v receiver s = Inr (True, s\<lparr>warnings := warnings s @ []\<rparr>)"
        using False by (simp add: kd readonly_set_def)
      moreover have "handler_deleteProperty kd dev K target k s = Inr (True, s\<lparr>warnings := warnings s @ []\<rparr>)"
        using False by (simp add: kd readonly_deleteProperty_def)
      ultimately show ?thesis by blast
    qed
  qed
qed

theorem C8_readonly_writes_are_noops_witness:
  "is_readonly_kind ShallowReadonly
   \<and> (\<exists>msgs. handler_set ShallowReadonly True idle_K 0 (KStr ''a'') (VNum 1)
                  (VProxy ShallowReadonly (VObj 0)) init
                = Inr (True, init\<lparr>warnings := warnings init @ msgs\<rparr>))
   \<and> (\<exists>msgs. handler_deleteProperty ShallowReadonly True idle_K 0 (KStr ''a'') init
                = Inr (True, init\<lparr>warnings := warnings init @ msgs\<rparr>))"
  using C8_readonly_writes_are_noops[of ShallowReadonly True idle_K 0 "KStr ''a''" "VNum 1"
      "VProxy ShallowReadonly (VObj 0)" init]
  by auto

section \<open>Nested effects\<close>

text \<open>
  C9 as stated fails on the code: nothing detaches the inner effect of an earlier run of
  the outer effect. With \<open>r1 = ref(0)\<close> and \<open>r2 = ref(0)\<close>, after \<open>r1.value = 1\<close> has
  re-run the outer effect, \<open>r2.value = 7\<close> calls the \<open>fn\<close> of effect 1, the stale inner
  effect, and then that of effect 2.
\<close>

theorem C9_stale_inner_effect_fires:
  "trace (nested_after_r1 (VNum 0) (VNum 0) (VNum 1)) = [EvFn 0, EvFn 1, EvFn 0, EvFn 2]
   \<and> trace (nested_after_r2 (VNum 0) (VNum 0) (VNum 1) (VNum 7))
       = [EvFn 0, EvFn 1, EvFn 0, EvFn 2, EvFn 1, EvFn 2]"
  by (simp add: ev nested_after_r2_def nested_after_r1_def nested_program_def two_refs_def)

text \<open>
  C9, amended. Whatever the values of the two refs are, and whatever the new values that
  change them: after the mutation of \<open>r1\<close> the Dep of \<open>r2\<close> holds both inner effects,
  the stale one first; both are active and subscribed to that Dep alone. The mutation of
  \<open>r2\<close> then fires both, the stale inner effect and the new one, and each pushes the new
  value; the outer effect is not fired.
\<close>

theorem C9_both_inner_effects_fire:
  assumes "\<not> isRef a" and "\<not> isRef b"
    and "hasChanged (toRaw v1) (toRaw a)" and "hasChanged (toRaw v2) (toRaw b)"
  shows "r_dep (refs (nested_after_r1 a b v1) 1) = Some 1
   \<and> d_set (dps (nested_after_r1 a b v1) 1) = [1, 2]
   \<and> deps (effs (nested_after_r1 a b v1) 1) = [1] \<and> active (effs (nested_after_r1 a b v1) 1)
   \<and> deps (effs (nested_after_r1 a b v1) 2) = [1] \<and> active (effs (nested_after_r1 a b v1) 2)
   \<and> deps (effs (nested_after_r1 a b v1) 0) = [0]
   \<and> trace (nested_after_r2 a b v1 v2) = trace (nested_after_r1 a b v1) @ [EvFn 1, EvFn 2]
   \<and> ulog (nested_after_r2 a b v1 v2)
       = ulog (nested_after_r1 a b v1) @ [toReactive (toRaw v2), toReactive (toRaw v2)]"
  using assms
  by (simp add: ev nested_after_r2_def nested_after_r1_def nested_program_def two_refs_def)

theorem C9_both_inner_effects_fire_witness:
  "d_set (dps (nested_after_r1 (VStr ''x'') VNaN (VStr ''y'')) 1) = [1, 2]
   \<and> trace (nested_after_r2 (VStr ''x'') VNaN (VStr ''y'') (VNum 3))
       = trace (nested_after_r1 (VStr ''x'') VNaN (VStr ''y'')) @ [EvFn 1, EvFn 2]
   \<and> ulog (nested_after_r2 (VStr ''x'') VNaN (VStr ''y'') (VNum 3))
       = ulog (nested_after_r1 (VStr ''x'') VNaN (VStr ''y'')) @ [VNum 3, VNum 3]"
proof -
  have h: "\<not> isRef (VStr ''x'')" "\<not> isRef VNaN"
    "hasChanged (toRaw (VStr ''y'')) (toRaw (VStr ''x''))" "hasChanged (toRaw (VNum 3)) (toRaw VNaN)"
    by (simp_all add: hasChanged_def)
  from C9_both_inner_effects_fire[OF h] show ?thesis
    by (simp add: toReactive_def)
qed

section \<open>proxyRefs\<close>

text \<open>
  C10. \<open>proxyRefs\<close> returns a reactive argument itself and leaves the state as it is;
  an argument that is not reactive is wrapped in a new ref-unwrapping proxy.
\<close>

theorem C10_proxyRefs_identity_on_reactive:
  "(isReactive x \<longrightarrow> proxyRefs x s = (x, s))
   \<and> (\<not> isReactive x \<longrightarrow>
        proxyRefs x s = (VUnwrap (next_proxy s) x, s\<lparr>next_proxy := Suc (next_proxy s)\<rparr>))"
  by (simp add: proxyRefs_def)

theorem C10_proxyRefs_identity_on_reactive_witness:
  "isReactive (VProxy Reactive (VObj 0))
   \<and> proxyRefs (VProxy Reactive (VObj 0)) init = (VProxy Reactive (VObj 0), init)
   \<and> isReactive (VProxy Readonly (VProxy Reactive (VObj 0)))
   \<and> \<not> isReactive (VObj 0)
   \<and> fst (proxyRefs (VObj 0) init) = VUnwrap 0 (VObj 0)"
  using C10_proxyRefs_identity_on_reactive[of "VProxy Reactive (VObj 0)" init]
    C10_proxyRefs_identity_on_reactive[of "VObj 0" init]
  by (simp add: init_def)

end
